theory Spec2Isabelle
  imports Main "HOL-Library.Word"
begin

section \<open>Results of the modelled calls\<close>

text \<open>
  The status codes of \<^verbatim>\<open>common::Status\<close> that the modelled functions use.
\<close>

datatype StatusCode = FAIL | INVALID_ARGUMENT | NOT_IMPLEMENTED | INVALID_GRAPH

text \<open>
  A call that does not end with \<^verbatim>\<open>Status::OK()\<close> ends with a \<open>failure\<close>:
  a status (returned, or carried by a thrown exception) with its message, or
  \<open>Undefined\<close> where the source dereferences a null pointer or reads or writes
  outside a buffer, which C++ leaves undefined.
\<close>

datatype failure = Status StatusCode string | Undefined

section \<open>MKLDNNExecutionProvider::CopyTensor\<close>

text \<open>
  \<^verbatim>\<open>mkldnn_execution_provider.cc\<close>, lines 42--57. A tensor is modelled by the
  four things \<open>CopyTensor\<close> reads: the name of its allocator (\<open>Location().name\<close>),
  its element type (\<open>DataType()\<close>, with the size in bytes of one element), its
  dimensions (\<open>Shape()\<close>) and its buffer (\<open>DataRaw()\<close>), a list of bytes.
\<close>

record DataTypeImpl =
  TypeName :: string
  TypeSize :: nat

type_synonym int64 = "64 word"

record Tensor =
  Location :: string
  DataType :: DataTypeImpl
  Shape :: "int64 list"
  DataRaw :: "8 word list"

text \<open>
  The three allocator names \<open>MKLDNN\<close>, \<open>CPU\<close> and \<open>MKLDNN_CPU\<close> are constants
  declared outside the sources at hand; \<open>CopyTensor\<close> takes them as a parameter.
\<close>

record AllocatorNames =
  CPU :: string
  MKLDNN :: string
  MKLDNN_CPU :: string

text \<open>
  Modelled from the spec: \<open>TensorShape::Size()\<close> is not among the sources; it is the
  element count of a shape (the spec's \<open>elementCount\<close>), the product of its
  dimensions, computed in \<open>int64_t\<close>.
\<close>

definition ShapeSize :: "int64 list \<Rightarrow> int64" where
  "ShapeSize dims = prod_list dims"

text \<open>
  Modelled from the spec: the macro \<open>LOTUS_NOT_IMPLEMENTED\<close> is not among the
  sources. The spec has an unsupported pair fail ``with \<open>NotImplemented\<close> naming both
  memory-space identifiers'': the failure carries the macro's arguments, concatenated.
\<close>

definition LOTUS_NOT_IMPLEMENTED :: "string list \<Rightarrow> failure" where
  "LOTUS_NOT_IMPLEMENTED args = Status NOT_IMPLEMENTED (concat args)"

text \<open>
  \<open>memcpy(dst, src, n)\<close> on buffers: the first \<open>n\<close> bytes of \<open>dst\<close> become the
  first \<open>n\<close> bytes of \<open>src\<close>. Reading past the end of \<open>src\<close> or writing past
  the end of \<open>dst\<close> is undefined.
\<close>

definition memcpy :: "8 word list \<Rightarrow> 8 word list \<Rightarrow> nat \<Rightarrow> failure + 8 word list" where
  "memcpy dst_data src_data n =
     (if n \<le> length src_data \<and> n \<le> length dst_data
      then Inr (take n src_data @ drop n dst_data)
      else Inl Undefined)"

text \<open>
  \<open>size_t bytes = src.DataType()->Size() * src.Shape().Size()\<close>: a product in
  \<open>size_t\<close>, so modulo \<open>2 ^ 64\<close>.
\<close>

definition copy_bytes :: "Tensor \<Rightarrow> nat" where
  "copy_bytes src = unat ((word_of_nat (TypeSize (DataType src)) :: 64 word) * ShapeSize (Shape src))"

text \<open>\<open>CopyTensor\<close> returns the destination tensor after the copy; \<open>strcmp(a, b) == 0\<close>
  is equality of the two names.\<close>

definition CopyTensor :: "AllocatorNames \<Rightarrow> Tensor \<Rightarrow> Tensor \<Rightarrow> failure + Tensor" where
  "CopyTensor names src dst =
     (if \<not> (Location src = MKLDNN names \<and> Location dst = CPU names) \<and>
         \<not> (Location src = CPU names \<and> Location dst = MKLDNN names) \<and>
         \<not> (Location src = MKLDNN names \<and> Location dst = MKLDNN_CPU names)
      then Inl (LOTUS_NOT_IMPLEMENTED
                  [Location src, '' copy to '', Location dst, '' is not implemented''])
      else
        (case memcpy (DataRaw dst) (DataRaw src) (copy_bytes src) of
           Inl e \<Rightarrow> Inl e
         | Inr bytes \<Rightarrow> Inr (dst\<lparr>DataRaw := bytes\<rparr>)))"

section \<open>Slice<float>::Compute\<close>

text \<open>
  \<^verbatim>\<open>slice.cc\<close>. The local \<open>clamp\<close> of lines 14--19 at \<open>int64_t\<close>, with the
  signed comparison.
\<close>

definition clamp :: "int64 \<Rightarrow> int64 \<Rightarrow> int64 \<Rightarrow> int64" where
  "clamp v lo hi = (if v <s lo then lo else if hi <s v then hi else v)"

text \<open>
  The four messages of \<open>Compute\<close>; \<open>CHR 0x27\<close> is the apostrophe.
\<close>

definition msg_more_axes_than_starts :: string where
  "msg_more_axes_than_starts =
     CHR 0x27 # ''axes'' @ CHR 0x27 # '' has more entries than the '' @
     CHR 0x27 # ''starts'' @ CHR 0x27 # '' attribute holds''"

definition msg_more_axes_than_ends :: string where
  "msg_more_axes_than_ends =
     CHR 0x27 # ''axes'' @ CHR 0x27 # '' has more entries than the '' @
     CHR 0x27 # ''ends'' @ CHR 0x27 # '' attribute holds''"

definition msg_axis_outside :: string where
  "msg_axis_outside =
     CHR 0x27 # ''axes'' @ CHR 0x27 # '' has an axis outside of the tensor dimension count''"

definition msg_negative_dimension :: string where
  "msg_negative_dimension =
     CHR 0x27 # ''starts'' @ CHR 0x27 # '' and '' @ CHR 0x27 # ''ends'' @
     CHR 0x27 # '' values resulted in a negative dimension''"

text \<open>
  The attributes the kernel was built with: the members \<^verbatim>\<open>has_axes_\<close>, \<^verbatim>\<open>axes_\<close>,
  \<^verbatim>\<open>starts_\<close> and \<^verbatim>\<open>ends_\<close> of the source (a name cannot end in an underscore
  here).
\<close>

record SliceAttrs =
  attr_has_axes :: bool
  attr_axes :: "int64 list"
  attr_starts :: "int64 list"
  attr_ends :: "int64 list"

text \<open>
  The loop of lines 49--64 over \<open>axesIndex\<close>, on the pair of the vectors
  \<open>starts\<close> and \<open>output_dims\<close>. \<open>axes\<close> holds \<open>size_t\<close> values, read as
  naturals.
\<close>

function axes_loop ::
  "SliceAttrs \<Rightarrow> int64 list \<Rightarrow> nat list \<Rightarrow> nat \<Rightarrow> int64 list \<times> int64 list
     \<Rightarrow> failure + (int64 list \<times> int64 list)" where
  "axes_loop k input_dimensions axes axesIndex (starts, output_dims) =
     (if axesIndex < length axes then
        (let axis = axes ! axesIndex in
         if axis \<ge> length input_dimensions
         then Inl (Status INVALID_ARGUMENT
                     msg_axis_outside)
         else
           (let start = attr_starts k ! axesIndex;
                start = (if start <s 0 then start + input_dimensions ! axis else start);
                starts = starts[axis := clamp start 0 (input_dimensions ! axis)];
                end_v = attr_ends k ! axesIndex;
                end_v = (if end_v <s 0 then end_v + input_dimensions ! axis else end_v);
                output_dims =
                  output_dims[axis := clamp end_v 0 (input_dimensions ! axis) - starts ! axis]
            in if output_dims ! axis <s 0
               then Inl (Status INVALID_ARGUMENT
                           msg_negative_dimension)
               else axes_loop k input_dimensions axes (Suc axesIndex) (starts, output_dims)))
      else Inr (starts, output_dims))"
  by pat_completeness auto
termination
  by (relation "measure (\<lambda>(k, dims, axes, i, s). length axes - i)") auto

declare axes_loop.simps [simp del]

text \<open>
  The copy loop of lines 72--73. \<open>output\<close> and \<open>output_end\<close> are positions in the
  output buffer; \<open>output\<close> starts at 0 and \<open>output_end\<close> is not below it (a
  negative element count is refused before the loop, see \<open>Compute\<close>), so the
  source's test \<open>output != output_end\<close> is \<open>output < output_end\<close>. The
  iterator is the function giving the value of its \<open>n\<close>-th dereference.
\<close>

function copy_loop :: "(nat \<Rightarrow> 'a) \<Rightarrow> nat \<Rightarrow> nat \<Rightarrow> 'a list \<Rightarrow> 'a list" where
  "copy_loop input_iterator output output_end written =
     (if output < output_end
      then copy_loop input_iterator (Suc output) output_end (written @ [input_iterator output])
      else written)"
  by pat_completeness auto
termination
  by (relation "measure (\<lambda>(it, output, output_end, w). output_end - output)") auto

declare copy_loop.simps [simp del]

text \<open>
  Lines 32--41: \<open>axes\<close> is the attribute \<^verbatim>\<open>axes_\<close>, each \<open>int64_t\<close> converted to
  \<open>size_t\<close>, or \<open>[0, ..., ndim - 1]\<close> when the attribute is absent.
\<close>

definition slice_axes :: "SliceAttrs \<Rightarrow> int64 list \<Rightarrow> nat list" where
  "slice_axes k input_dimensions =
     (if attr_has_axes k then map unat (attr_axes k) else [0 ..< length input_dimensions])"

text \<open>
  \<open>Compute\<close>, lines 22--76. The class \<open>SliceIterator\<close> is declared outside the
  sources at hand and is a parameter: from the input tensor's data, \<open>starts\<close> and
  \<open>output_dims\<close> it gives the sequence of values the iterator yields. The result
  is the output tensor: its shape and the elements written to it, in order. A shape
  whose \<open>Size()\<close> is negative would put \<open>output_end\<close> before \<open>output\<close>;
  the loop would then write outside the buffer, which the model gives as
  \<open>Undefined\<close>.
\<close>

definition Compute ::
  "SliceAttrs \<Rightarrow> ('a list \<Rightarrow> int64 list \<Rightarrow> int64 list \<Rightarrow> nat \<Rightarrow> 'a)
     \<Rightarrow> int64 list \<Rightarrow> 'a list \<Rightarrow> failure + (int64 list \<times> 'a list)" where
  "Compute k SliceIterator input_dimensions input_data =
     (let dimension_count = length input_dimensions;
          starts = replicate dimension_count (0 :: int64);
          output_dims = input_dimensions;
          axes = slice_axes k input_dimensions
      in if length axes > length (attr_starts k)
         then Inl (Status INVALID_ARGUMENT
                     msg_more_axes_than_starts)
         else if length axes > length (attr_ends k)
         then Inl (Status INVALID_ARGUMENT
                     msg_more_axes_than_ends)
         else
           (case axes_loop k input_dimensions axes 0 (starts, output_dims) of
              Inl e \<Rightarrow> Inl e
            | Inr (starts, output_dims) \<Rightarrow>
                if ShapeSize output_dims <s 0 then Inl Undefined
                else Inr (output_dims,
                          copy_loop (SliceIterator input_data starts output_dims) 0
                            (unat (ShapeSize output_dims)) [])))"

text \<open>
  The index arithmetic in the words of the claim, on mathematical integers: a negative
  start or end value is first increased by the dimension, then clamped to the closed
  interval from \<open>0\<close> to the dimension.
\<close>

definition slice_index :: "int \<Rightarrow> int \<Rightarrow> int" where
  "slice_index v dim = max 0 (min dim (if v < 0 then v + dim else v))"

text \<open>
  The extent the \<open>i\<close>-th entry of \<open>axes\<close> asks for: the clamped end minus the
  clamped start.
\<close>

definition slice_extent :: "SliceAttrs \<Rightarrow> int64 list \<Rightarrow> nat list \<Rightarrow> nat \<Rightarrow> int" where
  "slice_extent k dims axes i =
     (let d = sint (dims ! (axes ! i))
      in slice_index (sint (attr_ends k ! i)) d - slice_index (sint (attr_starts k ! i)) d)"

section \<open>Concrete inputs\<close>

text \<open>Tensors and kernels on which the theorems below are evaluated.\<close>

definition example_names :: AllocatorNames where
  "example_names = \<lparr>CPU = ''Cpu'', MKLDNN = ''MklDnn'', MKLDNN_CPU = ''MklDnnCpu''\<rparr>"

definition float_type :: DataTypeImpl where
  "float_type = \<lparr>TypeName = ''float'', TypeSize = 4\<rparr>"

definition one_float_on_cpu :: Tensor where
  "one_float_on_cpu =
     \<lparr>Location = ''Cpu'', DataType = float_type, Shape = [1], DataRaw = [1, 2, 3, 4]\<rparr>"

definition two_floats_on_mkldnn :: Tensor where
  "two_floats_on_mkldnn =
     \<lparr>Location = ''MklDnn'', DataType = float_type, Shape = [2],
      DataRaw = [0, 0, 0, 0, 0, 0, 0, 0]\<rparr>"

definition one_float_on_gpu :: Tensor where
  "one_float_on_gpu =
     \<lparr>Location = ''Cuda'', DataType = float_type, Shape = [1], DataRaw = [0, 0, 0, 0]\<rparr>"

text \<open>
  A kernel slicing axis 0 from \<open>-3\<close> to \<open>4\<close>, and one whose end lies before its
  start; an iterator that numbers its dereferences.
\<close>

definition slice_tail :: SliceAttrs where
  "slice_tail = \<lparr>attr_has_axes = True, attr_axes = [0], attr_starts = [- 3], attr_ends = [4]\<rparr>"

definition slice_backwards :: SliceAttrs where
  "slice_backwards = \<lparr>attr_has_axes = False, attr_axes = [], attr_starts = [3, 0], attr_ends = [1, 2]\<rparr>"

definition counting_iterator :: "nat list \<Rightarrow> int64 list \<Rightarrow> int64 list \<Rightarrow> nat \<Rightarrow> nat" where
  "counting_iterator input_data starts output_dims n = n"

section \<open>The graph\<close>

text \<open>
  \<^verbatim>\<open>conv_activation_fusion.cc\<close> works on the classes \<open>Graph\<close>, \<open>Node\<close> and
  \<open>NodeArg\<close>, which are declared outside the sources at hand. Their data is modelled
  after the spec's data model.

  A \<open>NodeArg\<close> (tensor descriptor) has as identity a name unique within the graph;
  the pointer to a \<open>NodeArg\<close> is modelled by that name, and the comparison of two
  pointers by the equality of the names.
\<close>

type_synonym NodeIndex = nat
type_synonym NodeArg = string

text \<open>
  An attribute value. The pass copies attribute values and creates one string
  attribute; a float is carried by its bit pattern.
\<close>

datatype AttributeProto =
  AttrString string | AttrInt int | AttrInts "int list" | AttrFloat "32 word"

type_synonym NodeAttributes = "string \<rightharpoonup> AttributeProto"

text \<open>
  A node: its name, operator type, description and domain, its input and output
  descriptors and its attributes. A node is referred to by its index in the node table
  of its graph.
\<close>

record Node =
  Name :: string
  OpType :: string
  Description :: string
  Domain :: string
  InputDefs :: "NodeArg list"
  OutputDefs :: "NodeArg list"
  Attributes :: NodeAttributes

text \<open>
  An edge: source node, destination node, output slot of the source and input slot of
  the destination. The output edges of a node (\<open>Node::EdgeEnd\<close> in its
  \<open>output_edges\<close> set) are the edges of the graph that start at the node.
\<close>

record Edge =
  SrcNode :: NodeIndex
  DstNode :: NodeIndex
  SrcArgIndex :: nat
  DstArgIndex :: nat

text \<open>
  A graph: the node table (a removed node leaves its index empty and the index is not
  used again), the set of edges, kept as a list without repetition, and the descriptors
  declared as graph outputs.
\<close>

record Graph =
  Nodes :: "Node option list"
  Edges :: "Edge list"
  GraphOutputs :: "NodeArg list"

definition GetNode :: "Graph \<Rightarrow> NodeIndex \<Rightarrow> Node option" where
  "GetNode g index = (if index < length (Nodes g) then Nodes g ! index else None)"

definition OutputEdges :: "Graph \<Rightarrow> NodeIndex \<Rightarrow> Edge list" where
  "OutputEdges g index = filter (\<lambda>e. SrcNode e = index) (Edges g)"

definition GetOutputEdgesCount :: "Graph \<Rightarrow> NodeIndex \<Rightarrow> nat" where
  "GetOutputEdgesCount g index = length (OutputEdges g index)"

text \<open>\<open>OutputNodesBegin() ... OutputNodesEnd()\<close>: the destinations of the output edges.\<close>

definition OutputNodes :: "Graph \<Rightarrow> NodeIndex \<Rightarrow> NodeIndex list" where
  "OutputNodes g index = map DstNode (OutputEdges g index)"

definition NodeOutputDefs :: "Graph \<Rightarrow> NodeIndex \<Rightarrow> NodeArg list" where
  "NodeOutputDefs g index = (case GetNode g index of None \<Rightarrow> [] | Some n \<Rightarrow> OutputDefs n)"

definition live_names :: "Graph \<Rightarrow> string list" where
  "live_names g = [Name n. Some n \<leftarrow> Nodes g]"

text \<open>
  Modelled from the spec: \<open>Graph::IsNodeOutputsInGraphOutputs\<close> is not among the
  sources; it is ``true if any output descriptor of \<open>node\<close> is declared a Graph
  output''.
\<close>

definition IsNodeOutputsInGraphOutputs :: "Graph \<Rightarrow> Node \<Rightarrow> bool" where
  "IsNodeOutputsInGraphOutputs g node = (set (OutputDefs node) \<inter> set (GraphOutputs g) \<noteq> {})"

text \<open>
  Modelled from the spec: \<open>Graph::AddNode\<close> is not among the sources; it ``allocates
  a fresh node index; fails with \<open>InvalidGraph\<close> if \<open>name\<close> collides with a live
  node name in the same Graph''. The result is the graph and the index of the new node.
\<close>

definition AddNode ::
  "Graph \<Rightarrow> string \<Rightarrow> string \<Rightarrow> string \<Rightarrow> NodeArg list \<Rightarrow> NodeArg list \<Rightarrow> NodeAttributes
     \<Rightarrow> string \<Rightarrow> failure + (Graph \<times> NodeIndex)" where
  "AddNode g name op_type description input_args output_args attributes domain =
     (if name \<in> set (live_names g) then Inl (Status INVALID_GRAPH [])
      else Inr (g\<lparr>Nodes := Nodes g @
                   [Some \<lparr>Name = name, OpType = op_type, Description = description,
                          Domain = domain, InputDefs = input_args,
                          OutputDefs = output_args, Attributes = attributes\<rparr>]\<rparr>,
                length (Nodes g)))"

text \<open>
  Modelled from the spec: \<open>Node::AddAttribute\<close> is not among the sources; a node has
  ``a mapping from attribute name to attribute value'', and adding an attribute binds the
  name to the value. \<open>AddAttributes\<close> is the loop of lines 68--70 over the attributes
  of the activation.
\<close>

definition AddAttribute :: "Graph \<Rightarrow> NodeIndex \<Rightarrow> string \<Rightarrow> AttributeProto \<Rightarrow> Graph" where
  "AddAttribute g index attr_name v =
     (case GetNode g index of
        None \<Rightarrow> g
      | Some n \<Rightarrow> g\<lparr>Nodes := (Nodes g)[index := Some (n\<lparr>Attributes := (Attributes n)(attr_name \<mapsto> v)\<rparr>)]\<rparr>)"

definition AddAttributes :: "Graph \<Rightarrow> NodeIndex \<Rightarrow> NodeAttributes \<Rightarrow> Graph" where
  "AddAttributes g index attrs =
     (case GetNode g index of
        None \<Rightarrow> g
      | Some n \<Rightarrow> g\<lparr>Nodes := (Nodes g)[index := Some (n\<lparr>Attributes := Attributes n ++ attrs\<rparr>)]\<rparr>)"

text \<open>
  Modelled from the spec: \<open>Graph::AddEdge\<close> and \<open>Graph::RemoveEdge\<close> are not among
  the sources; each ``fails with \<open>InvalidArgument\<close> on out-of-range slots or
  non-existent nodes; mutates both nodes' input/output descriptor bindings so later
  lookups stay consistent''. Adding an edge puts it into the edge set and binds the input
  slot of the destination to the descriptor in the output slot of the source; removing an
  edge takes it out of the edge set.
\<close>

definition AddEdge ::
  "Graph \<Rightarrow> NodeIndex \<Rightarrow> NodeIndex \<Rightarrow> nat \<Rightarrow> nat \<Rightarrow> failure + Graph" where
  "AddEdge g src_node_index dst_node_index src_arg_slot dst_arg_slot =
     (case GetNode g src_node_index of
        None \<Rightarrow> Inl (Status INVALID_ARGUMENT [])
      | Some src_node \<Rightarrow>
          (case GetNode g dst_node_index of
             None \<Rightarrow> Inl (Status INVALID_ARGUMENT [])
           | Some dst_node \<Rightarrow>
               if src_arg_slot < length (OutputDefs src_node) \<and>
                  dst_arg_slot < length (InputDefs dst_node)
               then Inr (g\<lparr>Nodes := (Nodes g)[dst_node_index :=
                              Some (dst_node\<lparr>InputDefs := (InputDefs dst_node)
                                      [dst_arg_slot := OutputDefs src_node ! src_arg_slot]\<rparr>)],
                            Edges := List.insert
                              \<lparr>SrcNode = src_node_index, DstNode = dst_node_index,
                               SrcArgIndex = src_arg_slot, DstArgIndex = dst_arg_slot\<rparr>
                              (Edges g)\<rparr>)
               else Inl (Status INVALID_ARGUMENT [])))"

definition RemoveEdge ::
  "Graph \<Rightarrow> NodeIndex \<Rightarrow> NodeIndex \<Rightarrow> nat \<Rightarrow> nat \<Rightarrow> failure + Graph" where
  "RemoveEdge g src_node_index dst_node_index src_arg_slot dst_arg_slot =
     (case GetNode g src_node_index of
        None \<Rightarrow> Inl (Status INVALID_ARGUMENT [])
      | Some src_node \<Rightarrow>
          (case GetNode g dst_node_index of
             None \<Rightarrow> Inl (Status INVALID_ARGUMENT [])
           | Some dst_node \<Rightarrow>
               if src_arg_slot < length (OutputDefs src_node) \<and>
                  dst_arg_slot < length (InputDefs dst_node)
               then Inr (g\<lparr>Edges := removeAll
                              \<lparr>SrcNode = src_node_index, DstNode = dst_node_index,
                               SrcArgIndex = src_arg_slot, DstArgIndex = dst_arg_slot\<rparr>
                              (Edges g)\<rparr>)
               else Inl (Status INVALID_ARGUMENT [])))"

text \<open>
  The remaining members of \<open>Graph\<close> and \<open>GraphViewer\<close> that \<open>Apply\<close> calls are
  parameters of the pass: the topological order of the viewer, the generator of node
  names, the removal of a node (whose result the pass discards) and \<open>Resolve\<close>. So
  is the registry of operator schemas: \<open>OpSinceVersion ops domain op_type\<close> is the
  version since which the schema of the operator \<open>op_type\<close> of \<open>domain\<close> holds,
  the \<open>node.Op()->SinceVersion()\<close> of a node with that operator.
\<close>

record GraphOps =
  OpSinceVersion :: "string \<Rightarrow> string \<Rightarrow> int"
  GetNodesInTopologicalOrder :: "Graph \<Rightarrow> NodeIndex list"
  GenerateNodeName :: "Graph \<Rightarrow> string \<Rightarrow> string"
  RemoveNode :: "Graph \<Rightarrow> NodeIndex \<Rightarrow> Graph"
  Resolve :: "Graph \<Rightarrow> failure + Graph"

section \<open>ConvActivationFusion\<close>

text \<open>
  Modelled from the spec: \<open>utils::IsSupportedOptypeVersionAndDomain\<close> is not among the
  sources; the spec's predicate is an ``exact operator-type/version/domain match''. The
  call gives no domain, so the domain is the default one, the empty string.
\<close>

definition kOnnxDomain :: string where
  "kOnnxDomain = []"

definition IsSupportedOptypeVersionAndDomain ::
  "GraphOps \<Rightarrow> Node \<Rightarrow> string \<Rightarrow> int \<Rightarrow> bool" where
  "IsSupportedOptypeVersionAndDomain ops node op_type version =
     (OpType node = op_type \<and>
      OpSinceVersion ops (Domain node) (OpType node) = version \<and>
      Domain node = kOnnxDomain)"

text \<open>Lines 14--16.\<close>

definition IsFusableActivation :: "GraphOps \<Rightarrow> Node \<Rightarrow> bool" where
  "IsFusableActivation ops node =
     (IsSupportedOptypeVersionAndDomain ops node ''LeakyRelu'' 6 \<or>
      IsSupportedOptypeVersionAndDomain ops node ''Relu'' 6 \<or>
      IsSupportedOptypeVersionAndDomain ops node ''Sigmoid'' 6 \<or>
      IsSupportedOptypeVersionAndDomain ops node ''Tanh'' 6)"

text \<open>
  Lines 18--33, \<open>HandleActivationNodeEdges\<close>: the output edges of the activation are
  copied, then each is removed and an edge from the fused node, slot 0, to the same
  destination slot is added. A failure of \<open>RemoveEdge\<close> or \<open>AddEdge\<close> ends the pass.
\<close>

fun redirect_edges :: "Graph \<Rightarrow> NodeIndex \<Rightarrow> NodeIndex \<Rightarrow> Edge list \<Rightarrow> failure + Graph" where
  "redirect_edges g act fused_conv [] = Inr g"
| "redirect_edges g act fused_conv (output_edge # output_edges) =
     (let dst_node_index = DstNode output_edge;
          src_arg_index = SrcArgIndex output_edge;
          dst_arg_index = DstArgIndex output_edge
      in case RemoveEdge g act dst_node_index src_arg_index dst_arg_index of
           Inl e \<Rightarrow> Inl e
         | Inr g1 \<Rightarrow>
             (case AddEdge g1 fused_conv dst_node_index 0 dst_arg_index of
                Inl e \<Rightarrow> Inl e
              | Inr g2 \<Rightarrow> redirect_edges g2 act fused_conv output_edges))"

definition HandleActivationNodeEdges :: "Graph \<Rightarrow> NodeIndex \<Rightarrow> NodeIndex \<Rightarrow> failure + Graph" where
  "HandleActivationNodeEdges g act fused_conv = redirect_edges g act fused_conv (OutputEdges g act)"

text \<open>
  Lines 78--90: for each node after the activation, every input descriptor that is the
  activation's output descriptor becomes the fused node's output descriptor.
\<close>

fun replace_inputs :: "Graph \<Rightarrow> NodeIndex list \<Rightarrow> NodeArg \<Rightarrow> NodeArg \<Rightarrow> failure + Graph" where
  "replace_inputs g [] act_output_def fused_conv_output_def = Inr g"
| "replace_inputs g (index # rest) act_output_def fused_conv_output_def =
     (case GetNode g index of
        None \<Rightarrow> Inl (Status INVALID_ARGUMENT [])
      | Some output_node \<Rightarrow>
          replace_inputs
            (g\<lparr>Nodes := (Nodes g)[index := Some (output_node\<lparr>InputDefs :=
                 map (\<lambda>def. if def = act_output_def then fused_conv_output_def else def)
                   (InputDefs output_node)\<rparr>)]\<rparr>)
            rest act_output_def fused_conv_output_def)"

text \<open>
  Lines 55--90, the rewrite of one pair: \<open>conv_node\<close> at \<open>conv_index\<close> and the
  activation \<open>act_node\<close> at \<open>act_index\<close>. Reading element 0 of an empty vector of
  descriptors (lines 76 and 77) is undefined.
\<close>

definition fuse_pair ::
  "GraphOps \<Rightarrow> Graph \<Rightarrow> Node \<Rightarrow> NodeIndex \<Rightarrow> Node \<Rightarrow> failure + Graph" where
  "fuse_pair ops graph conv_node act_index act_node =
     (case AddNode graph (GenerateNodeName ops graph (''fused '' @ Name conv_node)) ''FusedConv''
             (''fused Conv '' @ Name conv_node @ ''with activation '' @ OpType act_node)
             (InputDefs conv_node) (OutputDefs conv_node) (Attributes conv_node)
             ''com.microsoft'' of
        Inl e \<Rightarrow> Inl e
      | Inr (g1, fused_conv) \<Rightarrow>
          (let g2 = AddAttribute g1 fused_conv ''activation'' (AttrString (OpType act_node));
               g3 = (if OpType act_node = ''LeakyRelu''
                     then AddAttributes g2 fused_conv (Attributes act_node) else g2)
           in case HandleActivationNodeEdges g3 act_index fused_conv of
                Inl e \<Rightarrow> Inl e
              | Inr g4 \<Rightarrow>
                  (case NodeOutputDefs g4 act_index of
                     [] \<Rightarrow> Inl Undefined
                   | act_output_def # _ \<Rightarrow>
                       (case NodeOutputDefs g4 fused_conv of
                          [] \<Rightarrow> Inl Undefined
                        | fused_conv_output_def # _ \<Rightarrow>
                            replace_inputs g4 (OutputNodes g4 act_index)
                              act_output_def fused_conv_output_def))))"

text \<open>
  Lines 43--93, the body of the scan for one index of the order, on the graph and
  the deque \<open>removed_nodes\<close> (\<open>push_front\<close> is \<open>#\<close>). Dereferencing the null
  pointer that \<open>GetNode\<close> gives for an index without node is undefined.
\<close>

definition fuse_at ::
  "GraphOps \<Rightarrow> NodeIndex \<Rightarrow> Graph \<times> NodeIndex list \<Rightarrow> failure + (Graph \<times> NodeIndex list)" where
  "fuse_at ops index st =
     (case st of (graph, removed_nodes) \<Rightarrow>
        (case GetNode graph index of
           None \<Rightarrow> Inl Undefined
         | Some node \<Rightarrow>
             if \<not> IsSupportedOptypeVersionAndDomain ops node ''Conv'' 1 \<or>
                GetOutputEdgesCount graph index \<noteq> 1
             then Inr (graph, removed_nodes)
             else
               (let next_index = hd (OutputNodes graph index)
                in case GetNode graph next_index of
                     None \<Rightarrow> Inl Undefined
                   | Some next_node \<Rightarrow>
                       if \<not> IsFusableActivation ops next_node \<or>
                          IsNodeOutputsInGraphOutputs graph next_node
                       then Inr (graph, removed_nodes)
                       else
                         (case fuse_pair ops graph node next_index next_node of
                            Inl e \<Rightarrow> Inl e
                          | Inr g \<Rightarrow> Inr (g, next_index # index # removed_nodes)))))"

text \<open>The loop of line 42 over the topological order.\<close>

fun fuse_scan ::
  "GraphOps \<Rightarrow> NodeIndex list \<Rightarrow> Graph \<times> NodeIndex list \<Rightarrow> failure + (Graph \<times> NodeIndex list)" where
  "fuse_scan ops [] st = Inr st"
| "fuse_scan ops (index # order) st =
     (case fuse_at ops index st of
        Inl e \<Rightarrow> Inl e
      | Inr st' \<Rightarrow> fuse_scan ops order st')"

text \<open>
  \<open>ConvActivationFusion::Apply\<close>, lines 37--105. The result is the graph and the
  value of \<open>modified\<close> when the pass returns \<open>Status::OK()\<close>.
\<close>

definition Apply :: "GraphOps \<Rightarrow> Graph \<Rightarrow> bool \<Rightarrow> failure + (Graph \<times> bool)" where
  "Apply ops graph modified =
     (case fuse_scan ops (GetNodesInTopologicalOrder ops graph) (graph, []) of
        Inl e \<Rightarrow> Inl e
      | Inr (g1, removed_nodes) \<Rightarrow>
          (let g2 = fold (\<lambda>node g. RemoveNode ops g node) removed_nodes g1
           in if removed_nodes \<noteq> []
              then (case Resolve ops g2 of
                      Inl e \<Rightarrow> Inl e
                    | Inr g3 \<Rightarrow> Inr (g3, True))
              else Inr (g2, modified)))"

section \<open>Predicates on graphs\<close>

text \<open>
  The two tests of the scan, lines 44 and 48, as one predicate: the node at \<open>index\<close>
  is a \<open>Conv\<close> with one output edge whose destination is a fusable activation with
  no output among the graph outputs.
\<close>

definition fusion_candidate :: "GraphOps \<Rightarrow> Graph \<Rightarrow> NodeIndex \<Rightarrow> bool" where
  "fusion_candidate ops g index =
     (case GetNode g index of
        None \<Rightarrow> False
      | Some node \<Rightarrow>
          IsSupportedOptypeVersionAndDomain ops node ''Conv'' 1 \<and>
          GetOutputEdgesCount g index = 1 \<and>
          (case GetNode g (hd (OutputNodes g index)) of
             None \<Rightarrow> False
           | Some next_node \<Rightarrow>
               IsFusableActivation ops next_node \<and> \<not> IsNodeOutputsInGraphOutputs g next_node))"

text \<open>
  In the source an edge end holds a reference to its node, and the viewer's order holds
  indices of nodes of the graph: both ends of every edge are nodes of the graph, and so
  is every index of the order.
\<close>

definition edges_live :: "Graph \<Rightarrow> bool" where
  "edges_live g =
     (\<forall>e\<in>set (Edges g). GetNode g (SrcNode e) \<noteq> None \<and> GetNode g (DstNode e) \<noteq> None)"

definition order_live :: "Graph \<Rightarrow> NodeIndex list \<Rightarrow> bool" where
  "order_live g order = (\<forall>i\<in>set order. GetNode g i \<noteq> None)"

text \<open>
  The slots of every edge are indices into the descriptors of its two nodes (the spec's
  invariant of an edge).
\<close>

definition edge_slots_valid :: "Graph \<Rightarrow> bool" where
  "edge_slots_valid g =
     (\<forall>e\<in>set (Edges g).
        (case GetNode g (SrcNode e) of
           None \<Rightarrow> False
         | Some sn \<Rightarrow> SrcArgIndex e < length (OutputDefs sn)) \<and>
        (case GetNode g (DstNode e) of
           None \<Rightarrow> False
         | Some dn \<Rightarrow> DstArgIndex e < length (InputDefs dn)))"

text \<open>
  The node table after the input slots \<open>W\<close>, pairs of a node index and a slot, were
  bound to the descriptor \<open>out0\<close>: the same indices hold nodes, and a node differs in
  its input descriptors at the slots of \<open>W\<close> only.
\<close>

definition rewire_inputs :: "NodeArg \<Rightarrow> (NodeIndex \<times> nat) set \<Rightarrow> NodeIndex \<Rightarrow> Node \<Rightarrow> Node" where
  "rewire_inputs out0 W j n =
     n\<lparr>InputDefs := map (\<lambda>k. if (j, k) \<in> W then out0 else InputDefs n ! k)
                         [0 ..< length (InputDefs n)]\<rparr>"

definition rewire :: "NodeArg \<Rightarrow> (NodeIndex \<times> nat) set \<Rightarrow> Node option list \<Rightarrow> Node option list" where
  "rewire out0 W ns = map (\<lambda>j. map_option (rewire_inputs out0 W j) (ns ! j)) [0 ..< length ns]"

text \<open>
  The edge that replaces the output edge \<open>e\<close> of an activation: it starts at slot 0
  of the fused node \<open>f\<close> and ends where \<open>e\<close> ends. \<open>move_edges\<close> is the edge set
  after the edges \<open>es\<close> of the activation \<open>act\<close> were replaced one by one, and
  \<open>written_slots\<close> are the input slots at which these edges end.
\<close>

definition moved_edge :: "NodeIndex \<Rightarrow> Edge \<Rightarrow> Edge" where
  "moved_edge f e = \<lparr>SrcNode = f, DstNode = DstNode e, SrcArgIndex = 0, DstArgIndex = DstArgIndex e\<rparr>"

definition move_edges :: "NodeIndex \<Rightarrow> NodeIndex \<Rightarrow> Edge list \<Rightarrow> Edge list \<Rightarrow> Edge list" where
  "move_edges act f es E =
     fold (\<lambda>e E. List.insert (moved_edge f e) (removeAll (e\<lparr>SrcNode := act\<rparr>) E)) es E"

definition written_slots :: "Edge list \<Rightarrow> (NodeIndex \<times> nat) set" where
  "written_slots es = (\<lambda>e. (DstNode e, DstArgIndex e)) ` set es"

text \<open>
  The node that lines 55--71 build for the convolution \<open>conv_node\<close> and the
  activation \<open>act_node\<close> in the graph \<open>g\<close>.
\<close>

definition fused_node :: "GraphOps \<Rightarrow> Graph \<Rightarrow> Node \<Rightarrow> Node \<Rightarrow> Node" where
  "fused_node ops g conv_node act_node =
     \<lparr>Name = GenerateNodeName ops g (''fused '' @ Name conv_node),
      OpType = ''FusedConv'',
      Description = ''fused Conv '' @ Name conv_node @ ''with activation '' @ OpType act_node,
      Domain = ''com.microsoft'',
      InputDefs = InputDefs conv_node,
      OutputDefs = OutputDefs conv_node,
      Attributes =
        (if OpType act_node = ''LeakyRelu''
         then (Attributes conv_node)(''activation'' \<mapsto> AttrString (OpType act_node)) ++
              Attributes act_node
         else (Attributes conv_node)(''activation'' \<mapsto> AttrString (OpType act_node)))\<rparr>"

text \<open>
  What the scan keeps of a graph \<open>g\<close> in every later graph \<open>g'\<close>: no node is
  removed, a node changes in its input descriptors only, every new node is a
  \<open>FusedConv\<close>, the graph outputs stay, and so do the output edges of every node that
  is not a fusable activation.
\<close>

definition same_node :: "Node \<Rightarrow> Node \<Rightarrow> bool" where
  "same_node n n' = (\<exists>ins. n' = n\<lparr>InputDefs := ins\<rparr> \<and> length ins = length (InputDefs n))"

definition scan_inv :: "GraphOps \<Rightarrow> Graph \<Rightarrow> Graph \<Rightarrow> bool" where
  "scan_inv ops g g' =
     (length (Nodes g) \<le> length (Nodes g') \<and>
      GraphOutputs g' = GraphOutputs g \<and>
      (\<forall>i<length (Nodes g). rel_option same_node (Nodes g ! i) (Nodes g' ! i)) \<and>
      (\<forall>i. length (Nodes g) \<le> i \<and> i < length (Nodes g') \<longrightarrow>
           (\<exists>n. Nodes g' ! i = Some n \<and> OpType n = ''FusedConv'')) \<and>
      (\<forall>i n. GetNode g i = Some n \<and> \<not> IsFusableActivation ops n \<longrightarrow>
           OutputEdges g' i = OutputEdges g i))"

text \<open>
  Why the scan can have queued the index \<open>x\<close> of the graph \<open>g\<close> for removal: it is
  a candidate, or a fusable activation with no output among the graph outputs.
\<close>

definition removal_reason :: "GraphOps \<Rightarrow> Graph \<Rightarrow> NodeIndex \<Rightarrow> bool" where
  "removal_reason ops g x =
     (fusion_candidate ops g x \<or>
      (\<exists>n. GetNode g x = Some n \<and> IsFusableActivation ops n \<and>
           \<not> IsNodeOutputsInGraphOutputs g n))"

section \<open>Concrete graphs\<close>

text \<open>
  The graph of the spec's end-to-end scenario: a convolution (node 0) feeds an
  activation (node 1), which feeds a consumer (node 2) whose output is the graph's
  output. The activation is a \<open>LeakyRelu\<close> with its attribute \<open>alpha\<close>.
\<close>

definition conv_node0 :: Node where
  "conv_node0 =
     \<lparr>Name = ''conv'', OpType = ''Conv'', Description = [], Domain = [],
      InputDefs = [''X'', ''W''], OutputDefs = [''Y''],
      Attributes = [''kernel_shape'' \<mapsto> AttrInts [3, 3]]\<rparr>"

definition act_node1 :: Node where
  "act_node1 =
     \<lparr>Name = ''act'', OpType = ''LeakyRelu'', Description = [], Domain = [],
      InputDefs = [''Y''], OutputDefs = [''Z''],
      Attributes = [''alpha'' \<mapsto> AttrFloat 0x3DCCCCCD]\<rparr>"

definition pool_node2 :: Node where
  "pool_node2 =
     \<lparr>Name = ''pool'', OpType = ''MaxPool'', Description = [], Domain = [],
      InputDefs = [''Z''], OutputDefs = [''O''], Attributes = Map.empty\<rparr>"

definition chain_graph :: Graph where
  "chain_graph =
     \<lparr>Nodes = [Some conv_node0, Some act_node1, Some pool_node2],
      Edges = [\<lparr>SrcNode = 0, DstNode = 1, SrcArgIndex = 0, DstArgIndex = 0\<rparr>,
               \<lparr>SrcNode = 1, DstNode = 2, SrcArgIndex = 0, DstArgIndex = 0\<rparr>],
      GraphOutputs = [''O'']\<rparr>"

text \<open>The same graph with the activation's output declared a graph output.\<close>

definition observed_graph :: Graph where
  "observed_graph = chain_graph\<lparr>GraphOutputs := [''Z'', ''O'']\<rparr>"

text \<open>
  A convolution with two consumers, of which the first is a fusable activation whose
  output is not an output of the graph: node 0 feeds the activation 1 and the addition
  2, and the activation feeds the addition.
\<close>

definition sum_node2 :: Node where
  "sum_node2 =
     \<lparr>Name = ''sum'', OpType = ''Add'', Description = [], Domain = [],
      InputDefs = [''Y'', ''Z''], OutputDefs = [''O''], Attributes = Map.empty\<rparr>"

definition residual_graph :: Graph where
  "residual_graph =
     \<lparr>Nodes = [Some conv_node0, Some act_node1, Some sum_node2],
      Edges = [\<lparr>SrcNode = 0, DstNode = 1, SrcArgIndex = 0, DstArgIndex = 0\<rparr>,
               \<lparr>SrcNode = 0, DstNode = 2, SrcArgIndex = 0, DstArgIndex = 0\<rparr>,
               \<lparr>SrcNode = 1, DstNode = 2, SrcArgIndex = 0, DstArgIndex = 1\<rparr>],
      GraphOutputs = [''O'']\<rparr>"

text \<open>
  Operations for these graphs: the operators \<open>Conv\<close> of version 1 and the activations
  of version 6, the live indices in ascending order, a name generator that appends to the
  base until the name is new, a removal that empties the node's index, and a
  \<open>Resolve\<close> that accepts the graph as it is.
\<close>

definition example_versions :: "string \<Rightarrow> string \<Rightarrow> int" where
  "example_versions domain op_type = (if op_type = ''Conv'' \<or> op_type = ''FusedConv'' then 1 else 6)"

definition live_indices :: "Graph \<Rightarrow> NodeIndex list" where
  "live_indices g = filter (\<lambda>i. Nodes g ! i \<noteq> None) [0 ..< length (Nodes g)]"

definition example_name :: "Graph \<Rightarrow> string \<Rightarrow> string" where
  "example_name g base = base @ replicate (Suc (length (concat (live_names g)))) CHR ''_''"

definition release_node :: "Graph \<Rightarrow> NodeIndex \<Rightarrow> Graph" where
  "release_node g index = g\<lparr>Nodes := (Nodes g)[index := None]\<rparr>"

definition example_ops :: GraphOps where
  "example_ops =
     \<lparr>OpSinceVersion = example_versions,
      GetNodesInTopologicalOrder = live_indices,
      GenerateNodeName = example_name,
      RemoveNode = release_node,
      Resolve = Inr\<rparr>"

text \<open>
  The chain after the scan: the fused node is node 3, the consumer reads the fused
  node's output, and the two fused nodes are still in the table. \<open>chain_fused\<close> is the
  graph after the two removals.
\<close>

definition chain_scanned :: Graph where
  "chain_scanned =
     \<lparr>Nodes = [Some conv_node0, Some act_node1, Some (pool_node2\<lparr>InputDefs := [''Y'']\<rparr>),
               Some (fused_node example_ops chain_graph conv_node0 act_node1)],
      Edges = [\<lparr>SrcNode = 3, DstNode = 2, SrcArgIndex = 0, DstArgIndex = 0\<rparr>,
               \<lparr>SrcNode = 0, DstNode = 1, SrcArgIndex = 0, DstArgIndex = 0\<rparr>],
      GraphOutputs = [''O'']\<rparr>"

definition chain_fused :: Graph where
  "chain_fused =
     chain_scanned\<lparr>Nodes := [None, None, Some (pool_node2\<lparr>InputDefs := [''Y'']\<rparr>),
                              Some (fused_node example_ops chain_graph conv_node0 act_node1)]\<rparr>"

text \<open>
  A graph with two convolutions: node 0 feeds the convolution 1 and the addition 3; node
  1 feeds the activation 2, which feeds the addition. \<open>mixed_scanned\<close> is the graph
  after the scan, with the fused node 4.
\<close>

definition conv_node1 :: Node where
  "conv_node1 =
     \<lparr>Name = ''conv2'', OpType = ''Conv'', Description = [], Domain = [],
      InputDefs = [''Y'', ''V''], OutputDefs = [''P''], Attributes = Map.empty\<rparr>"

definition relu_node2 :: Node where
  "relu_node2 =
     \<lparr>Name = ''relu'', OpType = ''Relu'', Description = [], Domain = [],
      InputDefs = [''P''], OutputDefs = [''Q''], Attributes = Map.empty\<rparr>"

definition add_node3 :: Node where
  "add_node3 =
     \<lparr>Name = ''add'', OpType = ''Add'', Description = [], Domain = [],
      InputDefs = [''Y'', ''Q''], OutputDefs = [''R''], Attributes = Map.empty\<rparr>"

definition mixed_graph :: Graph where
  "mixed_graph =
     \<lparr>Nodes = [Some conv_node0, Some conv_node1, Some relu_node2, Some add_node3],
      Edges = [\<lparr>SrcNode = 0, DstNode = 1, SrcArgIndex = 0, DstArgIndex = 0\<rparr>,
               \<lparr>SrcNode = 0, DstNode = 3, SrcArgIndex = 0, DstArgIndex = 0\<rparr>,
               \<lparr>SrcNode = 1, DstNode = 2, SrcArgIndex = 0, DstArgIndex = 0\<rparr>,
               \<lparr>SrcNode = 2, DstNode = 3, SrcArgIndex = 0, DstArgIndex = 1\<rparr>],
      GraphOutputs = [''R'']\<rparr>"

definition mixed_scanned :: Graph where
  "mixed_scanned =
     \<lparr>Nodes = [Some conv_node0, Some conv_node1, Some relu_node2,
               Some (add_node3\<lparr>InputDefs := [''Y'', ''P'']\<rparr>),
               Some (fused_node example_ops mixed_graph conv_node1 relu_node2)],
      Edges = [\<lparr>SrcNode = 4, DstNode = 3, SrcArgIndex = 0, DstArgIndex = 1\<rparr>,
               \<lparr>SrcNode = 0, DstNode = 1, SrcArgIndex = 0, DstArgIndex = 0\<rparr>,
               \<lparr>SrcNode = 0, DstNode = 3, SrcArgIndex = 0, DstArgIndex = 0\<rparr>,
               \<lparr>SrcNode = 1, DstNode = 2, SrcArgIndex = 0, DstArgIndex = 0\<rparr>],
      GraphOutputs = [''R'']\<rparr>"

text \<open>The graph after the two removals.\<close>

definition mixed_fused :: Graph where
  "mixed_fused =
     mixed_scanned\<lparr>Nodes := [Some conv_node0, None, None,
                              Some (add_node3\<lparr>InputDefs := [''Y'', ''P'']\<rparr>),
                              Some (fused_node example_ops mixed_graph conv_node1 relu_node2)]\<rparr>"

text \<open>Operations whose \<open>Resolve\<close> refuses every graph.\<close>

definition refusing_ops :: GraphOps where
  "refusing_ops = example_ops\<lparr>Resolve := \<lambda>g. Inl (Status INVALID_GRAPH ''cycle'')\<rparr>"

section \<open>Resolved graphs\<close>












text \<open>
  Why the scan has queued the index \<open>x\<close>: it is a candidate of the graph, or the
  activation of one. \<open>fused_out ops g x y\<close>: the descriptor \<open>x\<close> is an output of
  the activation of a candidate, and \<open>y\<close> the first output of the candidate;
  \<open>slot_ok\<close>: an input slot that held \<open>x\<close> holds \<open>y\<close> after the scan.
\<close>

definition queued_for :: "GraphOps \<Rightarrow> Graph \<Rightarrow> NodeIndex \<Rightarrow> bool" where
  "queued_for ops g x =
     (fusion_candidate ops g x \<or>
      (\<exists>c. fusion_candidate ops g c \<and> x = hd (OutputNodes g c)))"













section \<open>CopyTensor: the two outcomes\<close>

text \<open>
  Claim C7. For every pair of locations other than the three supported ones (MKLDNN to
  CPU, CPU to MKLDNN, MKLDNN to MKLDNN_CPU), \<open>CopyTensor\<close> fails with
  \<open>NOT_IMPLEMENTED\<close>; the failure's message names the source and the destination
  location, and no destination tensor results: nothing is copied.
\<close>

theorem CopyTensor_unsupported_pair:
  assumes "\<not> ((Location src = MKLDNN names \<and> Location dst = CPU names) \<or>
              (Location src = CPU names \<and> Location dst = MKLDNN names) \<or>
              (Location src = MKLDNN names \<and> Location dst = MKLDNN_CPU names))"
  shows "CopyTensor names src dst =
           Inl (Status NOT_IMPLEMENTED
                  (Location src @ '' copy to '' @ Location dst @ '' is not implemented''))"
  using assms by (auto simp: CopyTensor_def LOTUS_NOT_IMPLEMENTED_def)

theorem CopyTensor_unsupported_pair_witness:
  "CopyTensor example_names one_float_on_cpu one_float_on_gpu =
     Inl (Status NOT_IMPLEMENTED ''Cpu copy to Cuda is not implemented'')"
  using CopyTensor_unsupported_pair [of one_float_on_cpu example_names one_float_on_gpu]
  by (simp add: example_names_def one_float_on_cpu_def one_float_on_gpu_def)

text \<open>
  Claim C6, as the spec states it, fails: \<open>CopyTensor\<close> compares neither the element
  counts nor the element types of the two tensors. Copying one float into a tensor of
  two floats returns \<open>OK\<close>, with the first four bytes of the destination overwritten.
\<close>

theorem CopyTensor_count_mismatch_counterexample:
  "ShapeSize (Shape one_float_on_cpu) \<noteq> ShapeSize (Shape two_floats_on_mkldnn) \<and>
   CopyTensor example_names one_float_on_cpu two_floats_on_mkldnn =
     Inr (two_floats_on_mkldnn\<lparr>DataRaw := [1, 2, 3, 4, 0, 0, 0, 0]\<rparr>)"
  by (simp add: CopyTensor_def memcpy_def copy_bytes_def ShapeSize_def example_names_def
      one_float_on_cpu_def two_floats_on_mkldnn_def float_type_def)

text \<open>
  Claim C6, amended. For every supported pair of locations \<open>CopyTensor\<close> never fails
  with \<open>INVALID_ARGUMENT\<close>, whatever the element count and type of the destination:
  it copies \<open>elementSize * elementCount\<close> bytes of the source and returns \<open>OK\<close> when
  both buffers hold that many bytes, and its behaviour is undefined otherwise.
\<close>

theorem CopyTensor_supported_pair_copies_unchecked:
  assumes "(Location src = MKLDNN names \<and> Location dst = CPU names) \<or>
           (Location src = CPU names \<and> Location dst = MKLDNN names) \<or>
           (Location src = MKLDNN names \<and> Location dst = MKLDNN_CPU names)"
  shows "CopyTensor names src dst =
           (if copy_bytes src \<le> length (DataRaw src) \<and> copy_bytes src \<le> length (DataRaw dst)
            then Inr (dst\<lparr>DataRaw := take (copy_bytes src) (DataRaw src) @
                                     drop (copy_bytes src) (DataRaw dst)\<rparr>)
            else Inl Undefined)
         \<and> CopyTensor names src dst \<noteq> Inl (Status INVALID_ARGUMENT msg)"
  using assms by (auto simp: CopyTensor_def memcpy_def)

theorem CopyTensor_supported_pair_copies_unchecked_witness:
  "copy_bytes one_float_on_cpu = 4 \<and>
   CopyTensor example_names one_float_on_cpu two_floats_on_mkldnn =
     Inr (two_floats_on_mkldnn\<lparr>DataRaw := [1, 2, 3, 4, 0, 0, 0, 0]\<rparr>) \<and>
   CopyTensor example_names two_floats_on_mkldnn one_float_on_cpu = Inl Undefined"
  using CopyTensor_supported_pair_copies_unchecked
          [of one_float_on_cpu example_names two_floats_on_mkldnn]
        CopyTensor_supported_pair_copies_unchecked
          [of two_floats_on_mkldnn example_names one_float_on_cpu]
  by (simp add: copy_bytes_def ShapeSize_def example_names_def
      one_float_on_cpu_def two_floats_on_mkldnn_def float_type_def)

section \<open>Slice: the index arithmetic\<close>

lemma sint_bounds64: "- (2 ^ 63) \<le> sint (w :: int64)" "sint (w :: int64) < 2 ^ 63"
  using sint_ge [of w] sint_lt [of w] by simp_all

lemma sint_add_no_overflow:
  fixes s d :: int64
  assumes "sint s < 0" "0 \<le> sint d"
  shows "sint (s + d) = sint s + sint d"
proof -
  have "- (2 ^ 63) \<le> sint s + sint d" "sint s + sint d < 2 ^ 63"
    using assms sint_bounds64 [of s] sint_bounds64 [of d] by linarith+
  then show ?thesis
    by (simp add: sint_word_ariths signed_take_bit_int_eq_self)
qed

lemma sint_sub_no_overflow:
  fixes a b :: int64
  assumes "0 \<le> sint a" "0 \<le> sint b"
  shows "sint (a - b) = sint a - sint b"
proof -
  have "- (2 ^ 63) \<le> sint a - sint b" "sint a - sint b < 2 ^ 63"
    using assms sint_bounds64 [of a] sint_bounds64 [of b] by linarith+
  then show ?thesis
    by (simp add: sint_word_ariths signed_take_bit_int_eq_self)
qed

lemma sint_adjust:
  fixes v d :: int64
  assumes "0 \<le> sint d"
  shows "sint (if v <s 0 then v + d else v) = (if sint v < 0 then sint v + sint d else sint v)"
  using assms by (simp add: word_sless_alt sint_add_no_overflow)

lemma sint_clamp:
  fixes v d :: int64
  assumes "0 \<le> sint d"
  shows "sint (clamp v 0 d) = max 0 (min (sint d) (sint v))"
  using assms by (auto simp: clamp_def word_sless_alt max_def min_def)

lemma sint_clamped_index:
  fixes v d :: int64
  assumes "0 \<le> sint d"
  shows "sint (clamp (if v <s 0 then v + d else v) 0 d) = slice_index (sint v) (sint d)"
  unfolding slice_index_def sint_clamp [OF assms] sint_adjust [OF assms] ..

lemma slice_index_range: "0 \<le> d \<Longrightarrow> 0 \<le> slice_index v d \<and> slice_index v d \<le> d"
  by (auto simp: slice_index_def)


lemma axes_loop_step:
  assumes i: "i < length axes" and ax: "axes ! i < length dims"
    and d: "0 \<le> sint (dims ! (axes ! i))"
    and ls: "length st = length dims" and lo: "length od = length dims"
  shows "axes_loop k dims axes i (st, od) =
           (if slice_extent k dims axes i < 0
            then Inl (Status INVALID_ARGUMENT msg_negative_dimension)
            else axes_loop k dims axes (Suc i)
                   (st[axes ! i := word_of_int (slice_index (sint (attr_starts k ! i)) (sint (dims ! (axes ! i))))],
                    od[axes ! i := word_of_int (slice_extent k dims axes i)]))"
proof -
  let ?a = "axes ! i"
  let ?d = "dims ! ?a"
  let ?s = "attr_starts k ! i"
  let ?e = "attr_ends k ! i"
  let ?cs = "clamp (if ?s <s 0 then ?s + ?d else ?s) 0 ?d"
  let ?ce = "clamp (if ?e <s 0 then ?e + ?d else ?e) 0 ?d"
  have cs: "sint ?cs = slice_index (sint ?s) (sint ?d)"
    by (rule sint_clamped_index [OF d])
  have ce: "sint ?ce = slice_index (sint ?e) (sint ?d)"
    by (rule sint_clamped_index [OF d])
  have diff: "sint (?ce - ?cs) = slice_extent k dims axes i"
    using slice_index_range [OF d, of "sint ?s"] slice_index_range [OF d, of "sint ?e"]
    by (simp add: sint_sub_no_overflow cs ce slice_extent_def Let_def)
  have cs_w: "?cs = word_of_int (slice_index (sint ?s) (sint ?d))"
    using cs by (metis of_int_sint scast_id)
  have diff_w: "?ce - ?cs = word_of_int (slice_extent k dims axes i)"
    using diff by (metis of_int_sint scast_id)
  have neg: "(?ce - ?cs <s 0) = (slice_extent k dims axes i < 0)"
    using diff by (simp add: word_sless_alt)
  show ?thesis
    apply (subst axes_loop.simps)
    using i ax ls lo neg cs_w diff_w
    apply (simp add: Let_def del: axes_loop.simps)
    done
qed


lemma sint_word_of_int64:
  assumes "- (2 ^ 63) \<le> x" "x < 2 ^ 63"
  shows "sint (word_of_int x :: int64) = x"
  using assms by (simp add: sint_sbintrunc' signed_take_bit_int_eq_self)

lemma slice_extent_le:
  assumes "0 \<le> sint (dims ! (axes ! i))"
  shows "slice_extent k dims axes i \<le> sint (dims ! (axes ! i))"
  using slice_index_range [OF assms, of "sint (attr_starts k ! i)"]
        slice_index_range [OF assms, of "sint (attr_ends k ! i)"]
  by (simp add: slice_extent_def Let_def)

lemma sint_word_of_extent:
  assumes "0 \<le> sint (dims ! (axes ! i))" "0 \<le> slice_extent k dims axes i"
  shows "sint (word_of_int (slice_extent k dims axes i) :: int64) = slice_extent k dims axes i"
proof -
  have "slice_extent k dims axes i < 2 ^ 63"
    using slice_extent_le [OF assms(1), of k] sint_bounds64(2) [of "dims ! (axes ! i)"] by linarith
  with assms(2) show ?thesis
    by (intro sint_word_of_int64) simp_all
qed

lemma axes_loop_negative:
  assumes "\<forall>d\<in>set dims. 0 \<le> sint d"
    and "\<forall>j<length axes. axes ! j < length dims"
    and "length st = length dims" and "length od = length dims"
    and "\<exists>j. i \<le> j \<and> j < length axes \<and> slice_extent k dims axes j < 0"
  shows "axes_loop k dims axes i (st, od) = Inl (Status INVALID_ARGUMENT msg_negative_dimension)"
  using assms
proof (induction "length axes - i" arbitrary: i st od)
  case 0
  then show ?case by auto
next
  case (Suc n)
  then have i: "i < length axes" by linarith
  then have ax: "axes ! i < length dims" using Suc.prems by blast
  then have d: "0 \<le> sint (dims ! (axes ! i))" using Suc.prems(1) by simp
  note step = axes_loop_step [OF i ax d Suc.prems(3) Suc.prems(4), of k]
  show ?case
  proof (cases "slice_extent k dims axes i < 0")
    case True
    then show ?thesis using step by simp
  next
    case False
    with Suc.prems(5) have later: "\<exists>j. Suc i \<le> j \<and> j < length axes \<and> slice_extent k dims axes j < 0"
      by (metis Suc_leI le_neq_implies_less)
    have "n = length axes - Suc i" using Suc.hyps(2) by linarith
    from Suc.hyps(1) [OF this Suc.prems(1) Suc.prems(2) _ _ later] False step Suc.prems
    show ?thesis by simp
  qed
qed

lemma axes_loop_success:
  assumes "\<forall>d\<in>set dims. 0 \<le> sint d"
    and "\<forall>j<length axes. axes ! j < length dims"
    and "length st = length dims" and "length od = length dims"
    and "\<forall>j. i \<le> j \<and> j < length axes \<longrightarrow> 0 \<le> slice_extent k dims axes j"
  shows "\<exists>st' od'. axes_loop k dims axes i (st, od) = Inr (st', od') \<and>
           length st' = length dims \<and> length od' = length dims \<and>
           (\<forall>a<length dims. (\<forall>j. i \<le> j \<and> j < length axes \<longrightarrow> axes ! j \<noteq> a) \<longrightarrow> od' ! a = od ! a) \<and>
           (\<forall>j. i \<le> j \<and> j < length axes \<and> (\<forall>j'. j < j' \<and> j' < length axes \<longrightarrow> axes ! j' \<noteq> axes ! j)
                \<longrightarrow> sint (od' ! (axes ! j)) = slice_extent k dims axes j)"
  using assms
proof (induction "length axes - i" arbitrary: i st od)
  case 0
  then show ?case by (subst axes_loop.simps) auto
next
  case (Suc n)
  then have i: "i < length axes" by linarith
  then have ax: "axes ! i < length dims" using Suc.prems by blast
  then have d: "0 \<le> sint (dims ! (axes ! i))" using Suc.prems(1) by simp
  have ext: "0 \<le> slice_extent k dims axes i" using Suc.prems(5) i by simp
  let ?st = "st[axes ! i := word_of_int (slice_index (sint (attr_starts k ! i)) (sint (dims ! (axes ! i))))]"
  let ?od = "od[axes ! i := word_of_int (slice_extent k dims axes i)]"
  have step: "axes_loop k dims axes i (st, od) = axes_loop k dims axes (Suc i) (?st, ?od)"
    using axes_loop_step [OF i ax d Suc.prems(3) Suc.prems(4), of k] ext by simp
  have n: "n = length axes - Suc i" using Suc.hyps(2) by linarith
  have later: "\<forall>j. Suc i \<le> j \<and> j < length axes \<longrightarrow> 0 \<le> slice_extent k dims axes j"
    using Suc.prems(5) by simp
  have "length ?st = length dims" "length ?od = length dims"
    using Suc.prems by simp_all
  from Suc.hyps(1) [OF n Suc.prems(1) Suc.prems(2) this later]
  obtain st' od' where r: "axes_loop k dims axes (Suc i) (?st, ?od) = Inr (st', od')"
    and l: "length st' = length dims" "length od' = length dims"
    and keep: "\<forall>a<length dims. (\<forall>j. Suc i \<le> j \<and> j < length axes \<longrightarrow> axes ! j \<noteq> a) \<longrightarrow> od' ! a = ?od ! a"
    and last: "\<forall>j. Suc i \<le> j \<and> j < length axes \<and> (\<forall>j'. j < j' \<and> j' < length axes \<longrightarrow> axes ! j' \<noteq> axes ! j)
                \<longrightarrow> sint (od' ! (axes ! j)) = slice_extent k dims axes j"
    by blast
  have keep': "\<forall>a<length dims. (\<forall>j. i \<le> j \<and> j < length axes \<longrightarrow> axes ! j \<noteq> a) \<longrightarrow> od' ! a = od ! a"
  proof (intro allI impI)
    fix a assume a: "a < length dims" and no: "\<forall>j. i \<le> j \<and> j < length axes \<longrightarrow> axes ! j \<noteq> a"
    then have "od' ! a = ?od ! a" using keep by simp
    moreover have "axes ! i \<noteq> a" using no i by simp
    ultimately show "od' ! a = od ! a" by simp
  qed
  have last': "\<forall>j. i \<le> j \<and> j < length axes \<and> (\<forall>j'. j < j' \<and> j' < length axes \<longrightarrow> axes ! j' \<noteq> axes ! j)
                \<longrightarrow> sint (od' ! (axes ! j)) = slice_extent k dims axes j"
  proof (intro allI impI)
    fix j assume j: "i \<le> j \<and> j < length axes \<and> (\<forall>j'. j < j' \<and> j' < length axes \<longrightarrow> axes ! j' \<noteq> axes ! j)"
    show "sint (od' ! (axes ! j)) = slice_extent k dims axes j"
    proof (cases "j = i")
      case False
      then show ?thesis using j last by simp
    next
      case True
      then have "\<forall>j'. Suc i \<le> j' \<and> j' < length axes \<longrightarrow> axes ! j' \<noteq> axes ! i" using j by simp
      then have "od' ! (axes ! i) = ?od ! (axes ! i)" using keep ax by simp
      also have "\<dots> = word_of_int (slice_extent k dims axes i)" using ax Suc.prems(4) by simp
      finally show ?thesis using True sint_word_of_extent [OF d ext] by simp
    qed
  qed
  show ?case using step r l keep' last' by simp
qed


lemma axes_loop_invalid:
  assumes "\<forall>d\<in>set dims. 0 \<le> sint d"
    and "length st = length dims" and "length od = length dims"
    and "\<exists>j. i \<le> j \<and> j < length axes \<and> axes ! j < length dims \<and> slice_extent k dims axes j < 0"
  shows "\<exists>msg. axes_loop k dims axes i (st, od) = Inl (Status INVALID_ARGUMENT msg)"
  using assms
proof (induction "length axes - i" arbitrary: i st od)
  case 0
  then show ?case by auto
next
  case (Suc n)
  then have i: "i < length axes" by linarith
  show ?case
  proof (cases "axes ! i < length dims")
    case False
    then show ?thesis using i by (subst axes_loop.simps) (simp add: Let_def)
  next
    case ax: True
    then have d: "0 \<le> sint (dims ! (axes ! i))" using Suc.prems(1) by simp
    note step = axes_loop_step [OF i ax d Suc.prems(2) Suc.prems(3), of k]
    show ?thesis
    proof (cases "slice_extent k dims axes i < 0")
      case True
      then show ?thesis using step by simp
    next
      case False
      with Suc.prems(4) have later:
        "\<exists>j. Suc i \<le> j \<and> j < length axes \<and> axes ! j < length dims \<and> slice_extent k dims axes j < 0"
        by (metis Suc_leI le_neq_implies_less)
      have "n = length axes - Suc i" using Suc.hyps(2) by linarith
      from Suc.hyps(1) [OF this Suc.prems(1) _ _ later] False step Suc.prems
      show ?thesis by simp
    qed
  qed
qed

lemma copy_loop_eq: "copy_loop it i n w = w @ map it [i ..< n]"
proof (induction it i n w rule: copy_loop.induct)
  case (1 it i n w)
  show ?case
  proof (cases "i < n")
    case True
    then show ?thesis using 1 by (subst copy_loop.simps) (simp add: upt_conv_Cons)
  next
    case False
    then show ?thesis by (subst copy_loop.simps) simp
  qed
qed

lemma ShapeSize_of_int: "ShapeSize ws = word_of_int (prod_list (map sint ws))"
  unfolding ShapeSize_def by (induction ws) simp_all

lemma prod_list_bounded:
  fixes xs ys :: "int list"
  assumes "length xs = length ys" "\<forall>a<length ys. 0 \<le> xs ! a \<and> xs ! a \<le> ys ! a"
  shows "0 \<le> prod_list xs \<and> prod_list xs \<le> prod_list ys"
  using assms
proof (induction xs ys rule: list_induct2)
  case Nil
  then show ?case by simp
next
  case (Cons x xs y ys)
  have "\<forall>a<length ys. 0 \<le> xs ! a \<and> xs ! a \<le> ys ! a"
    using Cons.prems by (metis Suc_less_eq length_Cons nth_Cons_Suc)
  then have ih: "0 \<le> prod_list xs \<and> prod_list xs \<le> prod_list ys" using Cons.IH by simp
  have xy: "0 \<le> x \<and> x \<le> y" using Cons.prems by (metis length_Cons nth_Cons_0 zero_less_Suc)
  then show ?case using ih by (simp add: mult_mono)
qed

lemma last_listing:
  assumes "a \<in> set axes"
  shows "\<exists>j<length axes. axes ! j = a \<and> (\<forall>j'. j < j' \<and> j' < length axes \<longrightarrow> axes ! j' \<noteq> a)"
proof -
  let ?J = "{j. j < length axes \<and> axes ! j = a}"
  have fin: "finite ?J" by simp
  have ne: "?J \<noteq> {}" using assms by (auto simp: in_set_conv_nth)
  have m: "Max ?J \<in> ?J" using Max_in [OF fin ne] .
  have "\<forall>j'. Max ?J < j' \<and> j' < length axes \<longrightarrow> axes ! j' \<noteq> a"
  proof (intro allI impI notI)
    fix j' assume "Max ?J < j' \<and> j' < length axes" and "axes ! j' = a"
    then have "j' \<in> ?J" by simp
    then have "j' \<le> Max ?J" using Max_ge [OF fin] by blast
    then show False using \<open>Max ?J < j' \<and> j' < length axes\<close> by simp
  qed
  then show ?thesis using m by blast
qed


lemma output_dims_bounded:
  assumes dims: "\<forall>d\<in>set dims. 0 \<le> sint d"
    and range: "\<forall>i<length axes. axes ! i < length dims"
    and lod: "length od = length dims"
    and last: "\<forall>i<length axes. (\<forall>j. i < j \<and> j < length axes \<longrightarrow> axes ! j \<noteq> axes ! i)
                \<longrightarrow> sint (od ! (axes ! i)) = slice_extent k dims axes i"
    and keep: "\<forall>a<length dims. a \<notin> set axes \<longrightarrow> od ! a = dims ! a"
    and ext: "\<forall>i<length axes. 0 \<le> slice_extent k dims axes i"
  shows "\<forall>a<length dims. 0 \<le> sint (od ! a) \<and> sint (od ! a) \<le> sint (dims ! a)"
proof (intro allI impI)
  fix a assume a: "a < length dims"
  then have d: "0 \<le> sint (dims ! a)" using dims by simp
  show "0 \<le> sint (od ! a) \<and> sint (od ! a) \<le> sint (dims ! a)"
  proof (cases "a \<in> set axes")
    case False
    then show ?thesis using keep a d by simp
  next
    case True
    from last_listing [OF this] obtain j where j: "j < length axes" "axes ! j = a"
      and "\<forall>j'. j < j' \<and> j' < length axes \<longrightarrow> axes ! j' \<noteq> a" by blast
    then have "sint (od ! a) = slice_extent k dims axes j" using last by auto
    moreover have "slice_extent k dims axes j \<le> sint (dims ! a)"
      using slice_extent_le [of dims axes j k] d j by simp
    ultimately show ?thesis using ext j by simp
  qed
qed

text \<open>
  Claim C9. Let the dimensions of the input tensor be non-negative, its element count
  within \<open>int64_t\<close>, and \<open>axes\<close> the listed axes. For a listed axis that is in
  range, the extent \<open>slice_extent\<close> is the clamped end minus the clamped start, a
  negative start or end being first increased by the axis's dimension and both clamped
  to the closed interval from 0 to the dimension. If the extent of such an axis is
  negative, \<open>Compute\<close> fails with \<open>INVALID_ARGUMENT\<close>. If every list entry is in
  range with a non-negative extent (and \<open>starts\<close> and \<open>ends\<close> hold an entry for
  each), \<open>Compute\<close> succeeds: the output dimension on a listed axis is the extent of
  the axis (of its last listing, should an axis be listed twice), an axis not listed
  keeps the input's dimension, and the elements written to the output are exactly as many
  as the product of the output dimensions.
\<close>

theorem Slice_Compute_index_arithmetic:
  assumes dims: "\<forall>d\<in>set dims. 0 \<le> sint d"
    and fits: "prod_list (map sint dims) < 2 ^ 63"
    and axes: "axes = slice_axes k dims"
  shows "((\<exists>i<length axes. axes ! i < length dims \<and> slice_extent k dims axes i < 0) \<longrightarrow>
            (\<exists>msg. Compute k it dims data = Inl (Status INVALID_ARGUMENT msg))) \<and>
         (length axes \<le> length (attr_starts k) \<and> length axes \<le> length (attr_ends k) \<and>
          (\<forall>i<length axes. axes ! i < length dims \<and> 0 \<le> slice_extent k dims axes i) \<longrightarrow>
            (\<exists>st od. Compute k it dims data =
                        Inr (od, map (it data st od) [0 ..< nat (prod_list (map sint od))]) \<and>
                      length od = length dims \<and>
                      (\<forall>i<length axes. (\<forall>j. i < j \<and> j < length axes \<longrightarrow> axes ! j \<noteq> axes ! i) \<longrightarrow>
                          sint (od ! (axes ! i)) = slice_extent k dims axes i) \<and>
                      (\<forall>a<length dims. a \<notin> set axes \<longrightarrow> od ! a = dims ! a)))"
proof (intro conjI impI)
  assume neg: "\<exists>i<length axes. axes ! i < length dims \<and> slice_extent k dims axes i < 0"
  then have "\<exists>j. 0 \<le> j \<and> j < length axes \<and> axes ! j < length dims \<and> slice_extent k dims axes j < 0"
    by blast
  from axes_loop_invalid [OF dims _ _ this, of "replicate (length dims) 0" dims]
  obtain msg where "axes_loop k dims axes 0 (replicate (length dims) 0, dims) =
      Inl (Status INVALID_ARGUMENT msg)" by auto
  then show "\<exists>msg. Compute k it dims data = Inl (Status INVALID_ARGUMENT msg)"
    by (simp add: Compute_def Let_def axes [symmetric])
next
  assume ok: "length axes \<le> length (attr_starts k) \<and> length axes \<le> length (attr_ends k) \<and>
          (\<forall>i<length axes. axes ! i < length dims \<and> 0 \<le> slice_extent k dims axes i)"
  then have range: "\<forall>j<length axes. axes ! j < length dims"
    and ext: "\<forall>j. 0 \<le> j \<and> j < length axes \<longrightarrow> 0 \<le> slice_extent k dims axes j" by simp_all
  from axes_loop_success [OF dims range _ _ ext, of "replicate (length dims) 0" dims]
  obtain st od where r: "axes_loop k dims axes 0 (replicate (length dims) 0, dims) = Inr (st, od)"
    and lod: "length od = length dims"
    and keep0: "\<forall>a<length dims. (\<forall>j. 0 \<le> j \<and> j < length axes \<longrightarrow> axes ! j \<noteq> a) \<longrightarrow> od ! a = dims ! a"
    and last0: "\<forall>j. 0 \<le> j \<and> j < length axes \<and> (\<forall>j'. j < j' \<and> j' < length axes \<longrightarrow> axes ! j' \<noteq> axes ! j)
                \<longrightarrow> sint (od ! (axes ! j)) = slice_extent k dims axes j"
    by auto
  have keep: "\<forall>a<length dims. a \<notin> set axes \<longrightarrow> od ! a = dims ! a"
    using keep0 by (metis nth_mem)
  have last: "\<forall>i<length axes. (\<forall>j. i < j \<and> j < length axes \<longrightarrow> axes ! j \<noteq> axes ! i)
                \<longrightarrow> sint (od ! (axes ! i)) = slice_extent k dims axes i"
    using last0 by simp
  have bnd: "\<forall>a<length dims. 0 \<le> sint (od ! a) \<and> sint (od ! a) \<le> sint (dims ! a)"
    using output_dims_bounded [OF dims range lod last keep] ok by simp
  have "0 \<le> prod_list (map sint od) \<and> prod_list (map sint od) \<le> prod_list (map sint dims)"
    using prod_list_bounded [of "map sint od" "map sint dims"] lod bnd by simp
  then have p: "0 \<le> prod_list (map sint od)" "prod_list (map sint od) < 2 ^ 63"
    using fits by simp_all
  have sz: "sint (ShapeSize od) = prod_list (map sint od)"
    unfolding ShapeSize_of_int using p by (intro sint_word_of_int64) simp_all
  have nonneg: "\<not> ShapeSize od <s 0" using sz p by (simp add: word_sless_alt)
  have "uint (ShapeSize od) = prod_list (map sint od)"
    unfolding ShapeSize_of_int using p by (simp add: uint_word_of_int take_bit_int_eq_self)
  then have un: "unat (ShapeSize od) = nat (prod_list (map sint od))"
    by (simp add: unat_eq_nat_uint)
  have "Compute k it dims data =
          Inr (od, map (it data st od) [0 ..< nat (prod_list (map sint od))])"
    using ok r nonneg un by (simp add: Compute_def Let_def axes [symmetric] copy_loop_eq)
  then show "\<exists>st od. Compute k it dims data =
                        Inr (od, map (it data st od) [0 ..< nat (prod_list (map sint od))]) \<and>
                      length od = length dims \<and>
                      (\<forall>i<length axes. (\<forall>j. i < j \<and> j < length axes \<longrightarrow> axes ! j \<noteq> axes ! i) \<longrightarrow>
                          sint (od ! (axes ! i)) = slice_extent k dims axes i) \<and>
                      (\<forall>a<length dims. a \<notin> set axes \<longrightarrow> od ! a = dims ! a)"
    using lod last keep by blast
qed

theorem Slice_Compute_index_arithmetic_witness:
  "(\<exists>st od. Compute slice_tail counting_iterator [5, 4] [] =
              Inr (od, map (counting_iterator [] st od) [0 ..< nat (prod_list (map sint od))]) \<and>
            length od = 2 \<and> sint (od ! 0) = 2 \<and> od ! 1 = 4) \<and>
   (\<exists>msg. Compute slice_backwards counting_iterator [5, 4] [] =
            Inl (Status INVALID_ARGUMENT msg))"
proof -
  have a: "slice_axes slice_tail [5, 4] = [0]"
    by (simp add: slice_axes_def slice_tail_def)
  have e: "slice_extent slice_tail [5, 4] [0] 0 = 2"
    by (simp add: slice_extent_def slice_index_def slice_tail_def)
  have b: "slice_axes slice_backwards [5, 4] = [0, 1]"
    by (simp add: slice_axes_def slice_backwards_def upt_rec)
  have f: "slice_extent slice_backwards [5, 4] [0, 1] 0 = - 2"
    by (simp add: slice_extent_def slice_index_def slice_backwards_def)
  have "\<exists>st od. Compute slice_tail counting_iterator [5, 4] [] =
              Inr (od, map (counting_iterator [] st od) [0 ..< nat (prod_list (map sint od))]) \<and>
            length od = 2 \<and> sint (od ! 0) = 2 \<and> (\<forall>a<2. a \<notin> set [0] \<longrightarrow> od ! a = [5, 4] ! a)"
    using Slice_Compute_index_arithmetic
            [of "[5, 4]" "[0]" slice_tail counting_iterator "[]"] a e
    by (simp add: slice_tail_def numeral_2_eq_2)
  then obtain st od where
    "Compute slice_tail counting_iterator [5, 4] [] =
       Inr (od, map (counting_iterator [] st od) [0 ..< nat (prod_list (map sint od))])"
    "length od = 2" "sint (od ! 0) = 2" "\<forall>a<2. a \<notin> set [0] \<longrightarrow> od ! a = [5, 4] ! a"
    by blast
  moreover from this(4) have "od ! 1 = 4" by simp
  ultimately have first: "\<exists>st od. Compute slice_tail counting_iterator [5, 4] [] =
              Inr (od, map (counting_iterator [] st od) [0 ..< nat (prod_list (map sint od))]) \<and>
            length od = 2 \<and> sint (od ! 0) = 2 \<and> od ! 1 = 4"
    by blast
  have dims: "\<forall>d\<in>set [5, 4 :: int64]. 0 \<le> sint d" by simp
  have fits: "prod_list (map sint [5, 4 :: int64]) < 2 ^ 63" by simp
  have neg: "\<exists>i<length [0, 1 :: nat]. [0, 1 :: nat] ! i < length [5, 4 :: int64] \<and>
               slice_extent slice_backwards [5, 4] [0, 1] i < 0"
    using f by (intro exI [of _ 0]) simp
  have second: "\<exists>msg. Compute slice_backwards counting_iterator [5, 4] [] =
            Inl (Status INVALID_ARGUMENT msg)"
    using Slice_Compute_index_arithmetic
            [OF dims fits b [symmetric], of counting_iterator "[]", THEN conjunct1] neg
    by blast
  show ?thesis using first second by blast
qed

section \<open>The fusion pass: lemmas\<close>

subsection \<open>Node tables\<close>

lemma rewire_inputs_empty: "rewire_inputs out0 {} j n = n"
  by (simp add: rewire_inputs_def map_nth)

lemma rewire_empty: "rewire out0 {} ns = ns"
proof -
  have "rewire_inputs out0 {} j = (\<lambda>n. n)" for j
    by (rule ext) (rule rewire_inputs_empty)
  then show ?thesis
    by (intro nth_equalityI) (simp_all add: rewire_def option.map_ident)
qed

lemma length_rewire [simp]: "length (rewire out0 W ns) = length ns"
  by (simp add: rewire_def)

lemma nth_rewire: "j < length ns \<Longrightarrow> rewire out0 W ns ! j = map_option (rewire_inputs out0 W j) (ns ! j)"
  by (simp add: rewire_def)

lemma rewire_inputs_twice:
  "rewire_inputs out0 W2 j (rewire_inputs out0 W1 j n) = rewire_inputs out0 (W1 \<union> W2) j n"
  by (auto simp: rewire_inputs_def)

lemma rewire_twice: "rewire out0 W2 (rewire out0 W1 ns) = rewire out0 (W1 \<union> W2) ns"
  by (rule nth_equalityI)
     (simp_all add: nth_rewire option.map_comp comp_def rewire_inputs_twice)

lemma rewire_inputs_fields [simp]:
  "Name (rewire_inputs out0 W j n) = Name n"
  "OpType (rewire_inputs out0 W j n) = OpType n"
  "Description (rewire_inputs out0 W j n) = Description n"
  "Domain (rewire_inputs out0 W j n) = Domain n"
  "OutputDefs (rewire_inputs out0 W j n) = OutputDefs n"
  "Attributes (rewire_inputs out0 W j n) = Attributes n"
  "length (InputDefs (rewire_inputs out0 W j n)) = length (InputDefs n)"
  by (simp_all add: rewire_inputs_def)

lemma nth_InputDefs_rewire_inputs:
  "k < length (InputDefs n) \<Longrightarrow>
   InputDefs (rewire_inputs out0 W j n) ! k = (if (j, k) \<in> W then out0 else InputDefs n ! k)"
  by (simp add: rewire_inputs_def)

lemma rewire_inputs_single:
  assumes "d < length (InputDefs n)"
  shows "n\<lparr>InputDefs := (InputDefs n)[d := out0]\<rparr> = rewire_inputs out0 {(j, d)} j n"
proof -
  have "(InputDefs n)[d := out0] =
        map (\<lambda>k. if (j, k) \<in> {(j, d)} then out0 else InputDefs n ! k) [0 ..< length (InputDefs n)]"
    using assms by (intro nth_equalityI) (auto simp: nth_list_update)
  then show ?thesis by (simp add: rewire_inputs_def)
qed

lemma rewire_inputs_other: "\<forall>k. (j, k) \<notin> W \<Longrightarrow> rewire_inputs out0 W j n = n"
  by (simp add: rewire_inputs_def map_nth)

lemma rewire_single:
  assumes "j < length ns" "ns ! j = Some n" "d < length (InputDefs n)"
  shows "ns[j := Some (n\<lparr>InputDefs := (InputDefs n)[d := out0]\<rparr>)] = rewire out0 {(j, d)} ns"
proof (rule nth_equalityI)
  show "length (ns[j := Some (n\<lparr>InputDefs := (InputDefs n)[d := out0]\<rparr>)]) = length (rewire out0 {(j, d)} ns)"
    by simp
next
  fix i assume "i < length (ns[j := Some (n\<lparr>InputDefs := (InputDefs n)[d := out0]\<rparr>)])"
  then have i: "i < length ns" by simp
  show "ns[j := Some (n\<lparr>InputDefs := (InputDefs n)[d := out0]\<rparr>)] ! i = rewire out0 {(j, d)} ns ! i"
  proof (cases "i = j")
    case True
    then show ?thesis using assms rewire_inputs_single [OF assms(3), of out0 j]
      by (simp add: nth_rewire)
  next
    case False
    then have "rewire_inputs out0 {(j, d)} i m = m" for m
      by (intro rewire_inputs_other) simp
    then show ?thesis using False i by (simp add: nth_rewire option.map_ident cong: option.map_cong)
  qed
qed


subsection \<open>Edge operations\<close>

lemma GetNode_Some_iff: "GetNode g i = Some n \<longleftrightarrow> i < length (Nodes g) \<and> Nodes g ! i = Some n"
  by (simp add: GetNode_def)

lemma GetNode_rewire:
  "GetNode (g\<lparr>Nodes := rewire out0 W ns\<rparr>) i =
   map_option (rewire_inputs out0 W i) (GetNode (g\<lparr>Nodes := ns\<rparr>) i)"
  by (simp add: GetNode_def nth_rewire)

lemma GetNode_Edges_update [simp]: "GetNode (g\<lparr>Edges := E\<rparr>) i = GetNode g i"
  by (simp add: GetNode_def)

lemma RemoveEdge_Inr:
  assumes "RemoveEdge g a j s d = Inr g1"
  shows "g1 = g\<lparr>Edges := removeAll \<lparr>SrcNode = a, DstNode = j, SrcArgIndex = s, DstArgIndex = d\<rparr> (Edges g)\<rparr>"
  using assms by (auto simp: RemoveEdge_def split: option.splits if_splits)

lemma AddEdge_Inr:
  assumes "AddEdge g f j s d = Inr g2"
  shows "\<exists>fn. GetNode g f = Some fn \<and> s < length (OutputDefs fn) \<and>
           g2 = g\<lparr>Nodes := rewire (OutputDefs fn ! s) {(j, d)} (Nodes g),
                   Edges := List.insert \<lparr>SrcNode = f, DstNode = j, SrcArgIndex = s, DstArgIndex = d\<rparr> (Edges g)\<rparr>"
proof -
  from assms obtain fn jn where fn: "GetNode g f = Some fn" and jn: "GetNode g j = Some jn"
    and s: "s < length (OutputDefs fn)" and d: "d < length (InputDefs jn)"
    and g2: "g2 = g\<lparr>Nodes := (Nodes g)[j := Some (jn\<lparr>InputDefs := (InputDefs jn)[d := OutputDefs fn ! s]\<rparr>)],
                   Edges := List.insert \<lparr>SrcNode = f, DstNode = j, SrcArgIndex = s, DstArgIndex = d\<rparr> (Edges g)\<rparr>"
    by (auto simp: AddEdge_def split: option.splits if_splits)
  have "(Nodes g)[j := Some (jn\<lparr>InputDefs := (InputDefs jn)[d := OutputDefs fn ! s]\<rparr>)] =
        rewire (OutputDefs fn ! s) {(j, d)} (Nodes g)"
    using jn d by (intro rewire_single) (simp_all add: GetNode_Some_iff)
  then show ?thesis using fn s g2 by simp
qed

lemma edge_with_src:
  "\<lparr>SrcNode = a, DstNode = DstNode e, SrcArgIndex = SrcArgIndex e, DstArgIndex = DstArgIndex e\<rparr> =
   e\<lparr>SrcNode := a\<rparr>"
  by (cases e) simp

lemma redirect_edges_Inr:
  assumes "redirect_edges g act f es = Inr g'" "GetNode g f = Some fn" "OutputDefs fn ! 0 = out0"
  shows "g' = g\<lparr>Nodes := rewire out0 (written_slots es) (Nodes g), Edges := move_edges act f es (Edges g)\<rparr>"
  using assms
proof (induction es arbitrary: g fn)
  case Nil
  then show ?case by (simp add: written_slots_def rewire_empty move_edges_def)
next
  case (Cons e es)
  from Cons.prems(1) obtain g1 g2 where
    g1: "RemoveEdge g act (DstNode e) (SrcArgIndex e) (DstArgIndex e) = Inr g1"
    and g2: "AddEdge g1 f (DstNode e) 0 (DstArgIndex e) = Inr g2"
    and rest: "redirect_edges g2 act f es = Inr g'"
    by (auto simp: Let_def split: sum.splits)
  have g1': "g1 = g\<lparr>Edges := removeAll (e\<lparr>SrcNode := act\<rparr>) (Edges g)\<rparr>"
    using RemoveEdge_Inr [OF g1] by (simp add: edge_with_src)
  then have fn1: "GetNode g1 f = Some fn" using Cons.prems(2) by simp
  from AddEdge_Inr [OF g2] fn1 Cons.prems(3)
  have g2': "g2 = g1\<lparr>Nodes := rewire out0 {(DstNode e, DstArgIndex e)} (Nodes g1),
                   Edges := List.insert (moved_edge f e) (Edges g1)\<rparr>"
    by (simp add: moved_edge_def)
  have fn2: "GetNode g2 f = Some (rewire_inputs out0 {(DstNode e, DstArgIndex e)} f fn)"
    using fn1 unfolding g2' by (simp add: GetNode_rewire)
  have out: "OutputDefs (rewire_inputs out0 {(DstNode e, DstArgIndex e)} f fn) ! 0 = out0"
    using Cons.prems(3) by simp
  have "g' = g2\<lparr>Nodes := rewire out0 (written_slots es) (Nodes g2), Edges := move_edges act f es (Edges g2)\<rparr>"
    by (rule Cons.IH [OF rest fn2 out])
  then show ?case
    unfolding g2' g1'
    by (simp add: rewire_twice written_slots_def move_edges_def insert_commute Un_commute)
qed

lemma redirect_edges_succeeds:
  assumes "GetNode g act = Some an" "GetNode g f = Some fn" "OutputDefs fn \<noteq> []"
    and "\<forall>e\<in>set es. SrcArgIndex e < length (OutputDefs an) \<and>
           (\<exists>dn. GetNode g (DstNode e) = Some dn \<and> DstArgIndex e < length (InputDefs dn))"
  shows "\<exists>g'. redirect_edges g act f es = Inr g'"
  using assms
proof (induction es arbitrary: g an fn)
  case Nil
  then show ?case by simp
next
  case (Cons e es)
  from Cons.prems(4) obtain dn where s: "SrcArgIndex e < length (OutputDefs an)"
    and dn: "GetNode g (DstNode e) = Some dn" and d: "DstArgIndex e < length (InputDefs dn)"
    by auto
  let ?g1 = "g\<lparr>Edges := removeAll \<lparr>SrcNode = act, DstNode = DstNode e, SrcArgIndex = SrcArgIndex e,
                 DstArgIndex = DstArgIndex e\<rparr> (Edges g)\<rparr>"
  have g1: "RemoveEdge g act (DstNode e) (SrcArgIndex e) (DstArgIndex e) = Inr ?g1"
    using Cons.prems(1) dn s d by (simp add: RemoveEdge_def)
  have get1: "GetNode ?g1 i = GetNode g i" for i by simp
  obtain g2 where g2: "AddEdge ?g1 f (DstNode e) 0 (DstArgIndex e) = Inr g2"
    using Cons.prems(2,3) dn d by (simp add: AddEdge_def get1)
  from AddEdge_Inr [OF g2] Cons.prems(2)
  have g2': "g2 = ?g1\<lparr>Nodes := rewire (OutputDefs fn ! 0) {(DstNode e, DstArgIndex e)} (Nodes ?g1),
      Edges := List.insert \<lparr>SrcNode = f, DstNode = DstNode e, SrcArgIndex = 0, DstArgIndex = DstArgIndex e\<rparr> (Edges ?g1)\<rparr>"
    by (simp add: get1)
  have get2: "GetNode g2 i = map_option (rewire_inputs (OutputDefs fn ! 0) {(DstNode e, DstArgIndex e)} i) (GetNode g i)" for i
    unfolding g2' by (simp add: GetNode_rewire)
  have "\<exists>g'. redirect_edges g2 act f es = Inr g'"
  proof (rule Cons.IH)
    show "GetNode g2 act = Some (rewire_inputs (OutputDefs fn ! 0) {(DstNode e, DstArgIndex e)} act an)"
      using Cons.prems(1) by (simp add: get2)
    show "GetNode g2 f = Some (rewire_inputs (OutputDefs fn ! 0) {(DstNode e, DstArgIndex e)} f fn)"
      using Cons.prems(2) by (simp add: get2)
    show "OutputDefs (rewire_inputs (OutputDefs fn ! 0) {(DstNode e, DstArgIndex e)} f fn) \<noteq> []"
      using Cons.prems(3) by simp
    show "\<forall>e'\<in>set es. SrcArgIndex e' < length (OutputDefs (rewire_inputs (OutputDefs fn ! 0) {(DstNode e, DstArgIndex e)} act an)) \<and>
           (\<exists>dn. GetNode g2 (DstNode e') = Some dn \<and> DstArgIndex e' < length (InputDefs dn))"
      using Cons.prems(4) by (auto simp: get2)
  qed
  then show ?case using g1 g2 by (simp add: Let_def)
qed


subsection \<open>The moved edges\<close>

lemma set_move_edges:
  assumes "f \<noteq> act" "\<forall>e\<in>set es. SrcNode e = act"
  shows "set (move_edges act f es E) = (set E - set es) \<union> moved_edge f ` set es"
  using assms(2)
proof (induction es arbitrary: E)
  case Nil
  then show ?case by (simp add: move_edges_def)
next
  case (Cons e es)
  have e: "e\<lparr>SrcNode := act\<rparr> = e" using Cons.prems by simp
  have notin: "moved_edge f e \<notin> set es"
    using Cons.prems assms(1) by (auto simp: moved_edge_def)
  have "set (move_edges act f (e # es) E) =
        set (move_edges act f es (List.insert (moved_edge f e) (removeAll e E)))"
    by (simp add: move_edges_def e)
  also have "\<dots> = (set (List.insert (moved_edge f e) (removeAll e E)) - set es) \<union> moved_edge f ` set es"
    using Cons.IH Cons.prems by simp
  also have "\<dots> = (set E - set (e # es)) \<union> moved_edge f ` set (e # es)"
    using notin by auto
  finally show ?case .
qed

lemma filter_move_edges_other:
  assumes "i \<noteq> act" "i \<noteq> f"
  shows "filter (\<lambda>e. SrcNode e = i) (move_edges act f es E) = filter (\<lambda>e. SrcNode e = i) E"
proof (induction es arbitrary: E)
  case Nil
  then show ?case by (simp add: move_edges_def)
next
  case (Cons e es)
  have "filter (\<lambda>x. SrcNode x = i) (List.insert (moved_edge f e) (removeAll (e\<lparr>SrcNode := act\<rparr>) E)) =
        filter (\<lambda>x. SrcNode x = i) E"
    using assms by (auto simp: List.insert_def moved_edge_def removeAll_filter_not_eq intro!: filter_cong)
  then show ?case using Cons.IH [of "List.insert (moved_edge f e) (removeAll (e\<lparr>SrcNode := act\<rparr>) E)"]
    by (simp add: move_edges_def)
qed

lemma filter_move_edges_act:
  assumes "f \<noteq> act" "\<forall>x\<in>set E. SrcNode x = act \<longrightarrow> x \<in> set es" "\<forall>e\<in>set es. SrcNode e = act"
  shows "filter (\<lambda>e. SrcNode e = act) (move_edges act f es E) = []"
proof -
  have "\<forall>x\<in>set (move_edges act f es E). SrcNode x \<noteq> act"
    unfolding set_move_edges [OF assms(1,3)] using assms by (auto simp: moved_edge_def)
  then show ?thesis by (simp add: filter_empty_conv)
qed


subsection \<open>The rewrite of one pair\<close>

lemma OutputEdges_Nodes_update [simp]: "OutputEdges (g\<lparr>Nodes := ns\<rparr>) i = OutputEdges g i"
  by (simp add: OutputEdges_def)

lemma GetNode_append_new: "GetNode (g\<lparr>Nodes := Nodes g @ [x]\<rparr>) (length (Nodes g)) = x"
  by (simp add: GetNode_def)

lemma GetNode_append_old:
  "i < length (Nodes g) \<Longrightarrow> GetNode (g\<lparr>Nodes := Nodes g @ [x]\<rparr>) i = GetNode g i"
  by (simp add: GetNode_def nth_append)

lemma build_fused_node:
  assumes "AddNode g (GenerateNodeName ops g (''fused '' @ Name cn)) ''FusedConv''
             (''fused Conv '' @ Name cn @ ''with activation '' @ OpType an)
             (InputDefs cn) (OutputDefs cn) (Attributes cn) ''com.microsoft'' = Inr (g1, f)"
  shows "f = length (Nodes g) \<and>
         (let g2 = AddAttribute g1 f ''activation'' (AttrString (OpType an))
          in if OpType an = ''LeakyRelu'' then AddAttributes g2 f (Attributes an) else g2) =
         g\<lparr>Nodes := Nodes g @ [Some (fused_node ops g cn an)]\<rparr>"
  using assms
  by (auto simp: AddNode_def AddAttribute_def AddAttributes_def GetNode_def fused_node_def Let_def
           split: if_splits)

lemma fuse_pair_Inr:
  assumes "fuse_pair ops g cn a an = Inr g'" "GetNode g a = Some an"
  shows "g' = g\<lparr>Nodes := rewire (OutputDefs cn ! 0) (written_slots (OutputEdges g a))
                          (Nodes g @ [Some (fused_node ops g cn an)]),
                 Edges := move_edges a (length (Nodes g)) (OutputEdges g a) (Edges g)\<rparr>"
proof -
  let ?f = "length (Nodes g)"
  let ?g3 = "g\<lparr>Nodes := Nodes g @ [Some (fused_node ops g cn an)]\<rparr>"
  from assms(1) obtain g1 f where add:
    "AddNode g (GenerateNodeName ops g (''fused '' @ Name cn)) ''FusedConv''
             (''fused Conv '' @ Name cn @ ''with activation '' @ OpType an)
             (InputDefs cn) (OutputDefs cn) (Attributes cn) ''com.microsoft'' = Inr (g1, f)"
    by (auto simp: fuse_pair_def split: sum.splits)
  note b = build_fused_node [OF add]
  then have f: "f = ?f" by simp
  from assms(1) add b obtain g4 where
    h: "HandleActivationNodeEdges ?g3 a ?f = Inr g4"
    and r: "replace_inputs g4 (OutputNodes g4 a) (hd (NodeOutputDefs g4 a)) (hd (NodeOutputDefs g4 ?f)) = Inr g'"
    by (auto simp: fuse_pair_def Let_def split: sum.splits list.splits)
  have a: "a < ?f" using assms(2) by (simp add: GetNode_Some_iff)
  have fn: "GetNode ?g3 ?f = Some (fused_node ops g cn an)" by (rule GetNode_append_new)
  have out: "OutputDefs (fused_node ops g cn an) ! 0 = OutputDefs cn ! 0" by (simp add: fused_node_def)
  have g4: "g4 = ?g3\<lparr>Nodes := rewire (OutputDefs cn ! 0) (written_slots (OutputEdges g a)) (Nodes ?g3),
                     Edges := move_edges a ?f (OutputEdges g a) (Edges ?g3)\<rparr>"
    using redirect_edges_Inr [OF h [unfolded HandleActivationNodeEdges_def] fn out] by simp
  have "filter (\<lambda>e. SrcNode e = a) (move_edges a ?f (OutputEdges g a) (Edges g)) = []"
    using a by (intro filter_move_edges_act) (auto simp: OutputEdges_def)
  then have "OutputNodes g4 a = []" unfolding g4 by (simp add: OutputNodes_def OutputEdges_def)
  then have "g' = g4" using r by simp
  then show ?thesis using g4 by simp
qed

lemma fuse_pair_succeeds:
  assumes "GenerateNodeName ops g (''fused '' @ Name cn) \<notin> set (live_names g)"
    and "GetNode g a = Some an" "OutputDefs cn \<noteq> []" "OutputDefs an \<noteq> []"
    and "\<forall>e\<in>set (OutputEdges g a). SrcArgIndex e < length (OutputDefs an) \<and>
           (\<exists>dn. GetNode g (DstNode e) = Some dn \<and> DstArgIndex e < length (InputDefs dn))"
  shows "\<exists>g'. fuse_pair ops g cn a an = Inr g'"
proof -
  let ?f = "length (Nodes g)"
  let ?g3 = "g\<lparr>Nodes := Nodes g @ [Some (fused_node ops g cn an)]\<rparr>"
  have add: "AddNode g (GenerateNodeName ops g (''fused '' @ Name cn)) ''FusedConv''
             (''fused Conv '' @ Name cn @ ''with activation '' @ OpType an)
             (InputDefs cn) (OutputDefs cn) (Attributes cn) ''com.microsoft'' =
        Inr (g\<lparr>Nodes := Nodes g @
                   [Some \<lparr>Name = GenerateNodeName ops g (''fused '' @ Name cn), OpType = ''FusedConv'',
                          Description = ''fused Conv '' @ Name cn @ ''with activation '' @ OpType an,
                          Domain = ''com.microsoft'', InputDefs = InputDefs cn,
                          OutputDefs = OutputDefs cn, Attributes = Attributes cn\<rparr>]\<rparr>, ?f)"
    using assms(1) by (simp add: AddNode_def)
  note b = build_fused_node [OF add]
  have a: "a < ?f" using assms(2) by (simp add: GetNode_Some_iff)
  have an: "GetNode ?g3 a = Some an" using assms(2) a by (simp add: GetNode_append_old)
  have fn: "GetNode ?g3 ?f = Some (fused_node ops g cn an)" by (rule GetNode_append_new)
  have fo: "OutputDefs (fused_node ops g cn an) \<noteq> []" using assms(3) by (simp add: fused_node_def)
  have dst: "\<forall>e\<in>set (OutputEdges g a). SrcArgIndex e < length (OutputDefs an) \<and>
           (\<exists>dn. GetNode ?g3 (DstNode e) = Some dn \<and> DstArgIndex e < length (InputDefs dn))"
    using assms(5) by (auto simp: GetNode_Some_iff nth_append)
  from redirect_edges_succeeds [OF an fn fo dst]
  obtain g4 where h: "HandleActivationNodeEdges ?g3 a ?f = Inr g4"
    by (auto simp: HandleActivationNodeEdges_def)
  have out: "OutputDefs (fused_node ops g cn an) ! 0 = OutputDefs cn ! 0" by (simp add: fused_node_def)
  have g4: "g4 = ?g3\<lparr>Nodes := rewire (OutputDefs cn ! 0) (written_slots (OutputEdges g a)) (Nodes ?g3),
                     Edges := move_edges a ?f (OutputEdges g a) (Edges ?g3)\<rparr>"
    using redirect_edges_Inr [OF h [unfolded HandleActivationNodeEdges_def] fn out] by simp
  have "filter (\<lambda>e. SrcNode e = a) (move_edges a ?f (OutputEdges g a) (Edges g)) = []"
    using a by (intro filter_move_edges_act) (auto simp: OutputEdges_def)
  then have nodes: "OutputNodes g4 a = []" unfolding g4 by (simp add: OutputNodes_def OutputEdges_def)
  have "NodeOutputDefs g4 a \<noteq> []"
    unfolding g4 using an assms(4) by (simp add: NodeOutputDefs_def GetNode_rewire)
  moreover have "NodeOutputDefs g4 ?f \<noteq> []"
    unfolding g4 using fn fo by (simp add: NodeOutputDefs_def GetNode_rewire)
  ultimately show ?thesis
    using add b h nodes by (auto simp: fuse_pair_def Let_def split: list.splits)
qed

subsection \<open>The invariant of the scan\<close>

lemma same_node_refl: "same_node n n"
  unfolding same_node_def by (rule exI [of _ "InputDefs n"]) simp

lemma same_node_trans: "same_node n n' \<Longrightarrow> same_node n' n'' \<Longrightarrow> same_node n n''"
  unfolding same_node_def by auto

lemma same_node_rewire_inputs: "same_node n (rewire_inputs out0 W j n)"
  unfolding same_node_def rewire_inputs_def by (intro exI conjI) (rule refl, simp)

lemma same_node_fields:
  assumes "same_node n n'"
  shows "Name n' = Name n" "OpType n' = OpType n" "Domain n' = Domain n"
    "OutputDefs n' = OutputDefs n" "Attributes n' = Attributes n"
    "length (InputDefs n') = length (InputDefs n)"
  using assms unfolding same_node_def by auto

lemma same_node_predicates:
  assumes "same_node n n'"
  shows "IsSupportedOptypeVersionAndDomain ops n' t v = IsSupportedOptypeVersionAndDomain ops n t v"
    "IsFusableActivation ops n' = IsFusableActivation ops n"
    "IsNodeOutputsInGraphOutputs g n' = IsNodeOutputsInGraphOutputs g n"
  using same_node_fields [OF assms]
  by (simp_all add: IsSupportedOptypeVersionAndDomain_def IsFusableActivation_def
      IsNodeOutputsInGraphOutputs_def)

lemma scan_inv_refl: "scan_inv ops g g"
  by (auto simp: scan_inv_def same_node_refl option.rel_refl)

lemma scan_inv_trans:
  assumes 1: "scan_inv ops g g'" and 2: "scan_inv ops g' g''"
  shows "scan_inv ops g g''"
proof -
  have len: "length (Nodes g) \<le> length (Nodes g')" "length (Nodes g') \<le> length (Nodes g'')"
    using 1 2 by (simp_all add: scan_inv_def)
  have rel1: "rel_option same_node (Nodes g ! i) (Nodes g' ! i)" if "i < length (Nodes g)" for i
    using 1 that by (simp add: scan_inv_def)
  have rel2: "rel_option same_node (Nodes g' ! i) (Nodes g'' ! i)" if "i < length (Nodes g')" for i
    using 2 that by (simp add: scan_inv_def)
  have rel: "rel_option same_node (Nodes g ! i) (Nodes g'' ! i)" if "i < length (Nodes g)" for i
  proof -
    have "rel_option (same_node OO same_node) (Nodes g ! i) (Nodes g'' ! i)"
      using rel1 [OF that] rel2 [of i] that len unfolding option.rel_compp by auto
    then show ?thesis
      by (rule option.rel_mono_strong) (auto intro: same_node_trans)
  qed
  have new: "\<exists>n. Nodes g'' ! i = Some n \<and> OpType n = ''FusedConv''"
    if h: "length (Nodes g) \<le> i" "i < length (Nodes g'')" for i
  proof (cases "i < length (Nodes g')")
    case True
    then obtain n where n: "Nodes g' ! i = Some n" "OpType n = ''FusedConv''"
      using 1 h by (auto simp: scan_inv_def)
    with rel2 [OF True] obtain n' where "Nodes g'' ! i = Some n'" "same_node n n'"
      by (auto simp: option_rel_Some1)
    then show ?thesis using n same_node_fields(2) by auto
  next
    case False
    then show ?thesis using 2 h by (auto simp: scan_inv_def)
  qed
  have edges: "OutputEdges g'' i = OutputEdges g i"
    if h: "GetNode g i = Some n" "\<not> IsFusableActivation ops n" for i n
  proof -
    have i: "i < length (Nodes g)" "Nodes g ! i = Some n"
      using h by (simp_all add: GetNode_Some_iff)
    with rel1 [of i] obtain n' where n': "Nodes g' ! i = Some n'" "same_node n n'"
      by (auto simp: option_rel_Some1)
    then have "GetNode g' i = Some n'" "\<not> IsFusableActivation ops n'"
      using i len h by (simp_all add: GetNode_Some_iff same_node_predicates)
    then have "OutputEdges g'' i = OutputEdges g' i" using 2 by (auto simp: scan_inv_def)
    moreover have "OutputEdges g' i = OutputEdges g i" using 1 h by (auto simp: scan_inv_def)
    ultimately show ?thesis by simp
  qed
  show ?thesis
    unfolding scan_inv_def using len rel new edges 1 2
    by (auto simp: scan_inv_def)
qed


lemma scan_inv_fuse_pair:
  assumes "fuse_pair ops g cn a an = Inr g'" "GetNode g a = Some an" "IsFusableActivation ops an"
  shows "scan_inv ops g g' \<and> length (Nodes g') = Suc (length (Nodes g))"
proof -
  let ?f = "length (Nodes g)"
  let ?W = "written_slots (OutputEdges g a)"
  let ?out = "OutputDefs cn ! 0"
  let ?F = "fused_node ops g cn an"
  note g' = fuse_pair_Inr [OF assms(1,2)]
  have len: "length (Nodes g') = Suc ?f" unfolding g' by simp
  have old: "Nodes g' ! i = map_option (rewire_inputs ?out ?W i) (Nodes g ! i)" if "i < ?f" for i
    unfolding g' using that by (simp add: nth_rewire nth_append)
  have rel: "rel_option same_node (Nodes g ! i) (Nodes g' ! i)" if "i < ?f" for i
    unfolding old [OF that]
    by (cases "Nodes g ! i") (simp_all add: same_node_rewire_inputs)
  have new: "Nodes g' ! ?f = Some (rewire_inputs ?out ?W ?f ?F)"
    unfolding g' by (simp add: nth_rewire)
  have newtype: "\<exists>n. Nodes g' ! i = Some n \<and> OpType n = ''FusedConv''"
    if "?f \<le> i" "i < length (Nodes g')" for i
  proof -
    have "i = ?f" using that len by simp
    then show ?thesis using new by (simp add: fused_node_def)
  qed
  have edges: "OutputEdges g' i = OutputEdges g i"
    if h: "GetNode g i = Some n" "\<not> IsFusableActivation ops n" for i n
  proof -
    have "i \<noteq> a" using h assms(2,3) by auto
    moreover have "i \<noteq> ?f" using h by (simp add: GetNode_Some_iff)
    ultimately show ?thesis
      unfolding g' by (simp add: OutputEdges_def filter_move_edges_other)
  qed
  have "GraphOutputs g' = GraphOutputs g" unfolding g' by simp
  then show ?thesis
    unfolding scan_inv_def using len rel newtype edges by auto
qed

lemma fuse_at_cases:
  assumes "fuse_at ops i (g, r) = Inr (g', r')"
  shows "(g' = g \<and> r' = r \<and> \<not> fusion_candidate ops g i) \<or>
         (fusion_candidate ops g i \<and> r' = hd (OutputNodes g i) # i # r \<and>
          (\<exists>cn an. GetNode g i = Some cn \<and> GetNode g (hd (OutputNodes g i)) = Some an \<and>
             fuse_pair ops g cn (hd (OutputNodes g i)) an = Inr g'))"
  using assms
  by (auto simp: fuse_at_def fusion_candidate_def Let_def split: option.splits if_splits sum.splits)

lemma fuse_at_skip:
  assumes "GetNode g i \<noteq> None" "edges_live g" "\<not> fusion_candidate ops g i"
  shows "fuse_at ops i (g, r) = Inr (g, r)"
proof -
  obtain n where n: "GetNode g i = Some n" using assms(1) by auto
  show ?thesis
  proof (cases "IsSupportedOptypeVersionAndDomain ops n ''Conv'' 1 \<and> GetOutputEdgesCount g i = 1")
    case False
    then show ?thesis using n by (auto simp: fuse_at_def)
  next
    case True
    then obtain e where e: "OutputEdges g i = [e]"
      by (auto simp: GetOutputEdgesCount_def length_Suc_conv)
    then have "e \<in> set (filter (\<lambda>e. SrcNode e = i) (Edges g))"
      by (simp add: OutputEdges_def)
    then have "e \<in> set (Edges g)" by simp
    then obtain an where an: "GetNode g (DstNode e) = Some an"
      using assms(2) by (auto simp: edges_live_def)
    have hd: "hd (OutputNodes g i) = DstNode e" using e by (simp add: OutputNodes_def)
    show ?thesis using n True an hd assms(3)
      by (auto simp: fuse_at_def fusion_candidate_def Let_def)
  qed
qed

lemma fuse_at_scan_inv:
  assumes "fuse_at ops i (g, r) = Inr (g', r')"
  shows "scan_inv ops g g' \<and>
         length r' + 2 * length (Nodes g) = length r + 2 * length (Nodes g') \<and>
         (\<forall>x\<in>set r'. x \<in> set r \<or> removal_reason ops g x) \<and>
         (length (Nodes g') = length (Nodes g) \<longrightarrow> g' = g)"
  using fuse_at_cases [OF assms]
proof
  assume "g' = g \<and> r' = r \<and> \<not> fusion_candidate ops g i"
  then show ?thesis by (simp add: scan_inv_refl)
next
  assume c: "fusion_candidate ops g i \<and> r' = hd (OutputNodes g i) # i # r \<and>
          (\<exists>cn an. GetNode g i = Some cn \<and> GetNode g (hd (OutputNodes g i)) = Some an \<and>
             fuse_pair ops g cn (hd (OutputNodes g i)) an = Inr g')"
  then obtain cn an where cn: "GetNode g i = Some cn"
    and an: "GetNode g (hd (OutputNodes g i)) = Some an"
    and fp: "fuse_pair ops g cn (hd (OutputNodes g i)) an = Inr g'" by blast
  have act: "IsFusableActivation ops an" "\<not> IsNodeOutputsInGraphOutputs g an"
    using c cn an by (simp_all add: fusion_candidate_def)
  note inv = scan_inv_fuse_pair [OF fp an act(1)]
  have "removal_reason ops g (hd (OutputNodes g i))" "removal_reason ops g i"
    using c an act by (simp_all add: removal_reason_def)
  then show ?thesis using inv c by auto
qed


lemma Conv_OpType:
  "IsSupportedOptypeVersionAndDomain ops n ''Conv'' 1 \<Longrightarrow> OpType n = ''Conv''"
  by (simp add: IsSupportedOptypeVersionAndDomain_def)

lemma activation_OpType:
  "IsFusableActivation ops n \<Longrightarrow>
   OpType n = ''LeakyRelu'' \<or> OpType n = ''Relu'' \<or> OpType n = ''Sigmoid'' \<or> OpType n = ''Tanh''"
  by (auto simp: IsFusableActivation_def IsSupportedOptypeVersionAndDomain_def)

lemma Conv_not_activation:
  "IsSupportedOptypeVersionAndDomain ops n ''Conv'' 1 \<Longrightarrow> \<not> IsFusableActivation ops n"
  using activation_OpType [of ops n] Conv_OpType [of ops n] by auto

lemma FusedConv_not_Conv:
  "OpType n = ''FusedConv'' \<Longrightarrow> \<not> IsSupportedOptypeVersionAndDomain ops n ''Conv'' 1"
  using Conv_OpType [of ops n] by auto

lemma FusedConv_not_activation:
  "OpType n = ''FusedConv'' \<Longrightarrow> \<not> IsFusableActivation ops n"
  using activation_OpType [of ops n] by auto

lemma scan_invD:
  assumes "scan_inv ops g g'"
  shows "length (Nodes g) \<le> length (Nodes g')"
    and "GraphOutputs g' = GraphOutputs g"
    and "\<And>i. i < length (Nodes g) \<Longrightarrow> rel_option same_node (Nodes g ! i) (Nodes g' ! i)"
    and "\<And>i. length (Nodes g) \<le> i \<Longrightarrow> i < length (Nodes g') \<Longrightarrow>
           \<exists>n. Nodes g' ! i = Some n \<and> OpType n = ''FusedConv''"
    and "\<And>i n. GetNode g i = Some n \<Longrightarrow> \<not> IsFusableActivation ops n \<Longrightarrow>
           OutputEdges g' i = OutputEdges g i"
  using assms unfolding scan_inv_def by blast+

lemma scan_inv_GetNode_back:
  assumes inv: "scan_inv ops g g'" and n': "GetNode g' i = Some n'" and old: "OpType n' \<noteq> ''FusedConv''"
  shows "\<exists>n. GetNode g i = Some n \<and> same_node n n'"
proof -
  have i': "i < length (Nodes g')" "Nodes g' ! i = Some n'"
    using n' by (simp_all add: GetNode_Some_iff)
  have i: "i < length (Nodes g)"
  proof (rule ccontr)
    assume "\<not> i < length (Nodes g)"
    then have "\<exists>n. Nodes g' ! i = Some n \<and> OpType n = ''FusedConv''"
      using scan_invD(4) [OF inv, of i] i' by simp
    then show False using i' old by simp
  qed
  then have "rel_option same_node (Nodes g ! i) (Nodes g' ! i)"
    by (rule scan_invD(3) [OF inv])
  then obtain n where "Nodes g ! i = Some n" "same_node n n'"
    using i' by (auto simp: option_rel_Some2)
  then show ?thesis using i by (simp add: GetNode_Some_iff)
qed

lemma scan_inv_GetNode_forth:
  assumes inv: "scan_inv ops g g'" and n: "GetNode g i = Some n"
  shows "\<exists>n'. GetNode g' i = Some n' \<and> same_node n n'"
proof -
  have i: "i < length (Nodes g)" "Nodes g ! i = Some n"
    using n by (simp_all add: GetNode_Some_iff)
  then have "rel_option same_node (Nodes g ! i) (Nodes g' ! i)" "i < length (Nodes g')"
    using scan_invD(3) [OF inv, of i] scan_invD(1) [OF inv] by simp_all
  then show ?thesis using i by (auto simp: option_rel_Some1 GetNode_Some_iff)
qed

lemma scan_inv_candidate:
  assumes inv: "scan_inv ops g g'" and c: "fusion_candidate ops g' i"
  shows "fusion_candidate ops g i \<and> hd (OutputNodes g i) = hd (OutputNodes g' i)"
proof -
  from c obtain n' an' where n': "GetNode g' i = Some n'"
    and conv: "IsSupportedOptypeVersionAndDomain ops n' ''Conv'' 1"
    and count: "GetOutputEdgesCount g' i = 1"
    and an': "GetNode g' (hd (OutputNodes g' i)) = Some an'"
    and act: "IsFusableActivation ops an'" "\<not> IsNodeOutputsInGraphOutputs g' an'"
    by (auto simp: fusion_candidate_def split: option.splits)
  from scan_inv_GetNode_back [OF inv n'] conv obtain n where
    n: "GetNode g i = Some n" "same_node n n'"
    using FusedConv_not_Conv by blast
  have convn: "IsSupportedOptypeVersionAndDomain ops n ''Conv'' 1"
    using conv n by (simp add: same_node_predicates)
  then have "\<not> IsFusableActivation ops n" by (rule Conv_not_activation)
  then have edges: "OutputEdges g' i = OutputEdges g i"
    using scan_invD(5) [OF inv n(1)] by simp
  then have hd: "hd (OutputNodes g i) = hd (OutputNodes g' i)"
    by (simp add: OutputNodes_def)
  from scan_inv_GetNode_back [OF inv an'] act(1) obtain an where
    an: "GetNode g (hd (OutputNodes g' i)) = Some an" "same_node an an'"
    using FusedConv_not_activation by blast
  have outs: "GraphOutputs g' = GraphOutputs g" by (rule scan_invD(2) [OF inv])
  have "IsFusableActivation ops an" "\<not> IsNodeOutputsInGraphOutputs g an"
    using act an(2) same_node_fields(4) [OF an(2)] outs
    by (simp_all add: same_node_predicates IsNodeOutputsInGraphOutputs_def)
  then show ?thesis
    using n convn count edges hd an
    by (simp add: fusion_candidate_def GetOutputEdgesCount_def)
qed

lemma scan_inv_reason:
  assumes inv: "scan_inv ops g g'" and r: "removal_reason ops g' x"
  shows "removal_reason ops g x"
  using r unfolding removal_reason_def
proof
  assume "fusion_candidate ops g' x"
  then show "fusion_candidate ops g x \<or>
    (\<exists>n. GetNode g x = Some n \<and> IsFusableActivation ops n \<and> \<not> IsNodeOutputsInGraphOutputs g n)"
    using scan_inv_candidate [OF inv] by simp
next
  assume "\<exists>n. GetNode g' x = Some n \<and> IsFusableActivation ops n \<and> \<not> IsNodeOutputsInGraphOutputs g' n"
  then obtain an' where an': "GetNode g' x = Some an'"
    and act: "IsFusableActivation ops an'" "\<not> IsNodeOutputsInGraphOutputs g' an'" by blast
  from scan_inv_GetNode_back [OF inv an'] act(1) obtain an where
    an: "GetNode g x = Some an" "same_node an an'"
    using FusedConv_not_activation by blast
  have outs: "GraphOutputs g' = GraphOutputs g" by (rule scan_invD(2) [OF inv])
  have "IsFusableActivation ops an" "\<not> IsNodeOutputsInGraphOutputs g an"
    using act an(2) same_node_fields(4) [OF an(2)] outs
    by (simp_all add: same_node_predicates IsNodeOutputsInGraphOutputs_def)
  then show "fusion_candidate ops g x \<or>
    (\<exists>n. GetNode g x = Some n \<and> IsFusableActivation ops n \<and> \<not> IsNodeOutputsInGraphOutputs g n)"
    using an by blast
qed

lemma fuse_scan_inv:
  assumes "fuse_scan ops order (g, r) = Inr (g', r')"
  shows "scan_inv ops g g' \<and>
         length r' + 2 * length (Nodes g) = length r + 2 * length (Nodes g') \<and>
         (\<forall>x\<in>set r'. x \<in> set r \<or> removal_reason ops g x) \<and>
         (length (Nodes g') = length (Nodes g) \<longrightarrow> g' = g)"
  using assms
proof (induction order arbitrary: g r)
  case Nil
  then show ?case by (simp add: scan_inv_refl)
next
  case (Cons i order)
  from Cons.prems obtain g1 r1 where step: "fuse_at ops i (g, r) = Inr (g1, r1)"
    and rest: "fuse_scan ops order (g1, r1) = Inr (g', r')"
    by (auto split: sum.splits)
  note a = fuse_at_scan_inv [OF step]
  note b = Cons.IH [OF rest]
  have inv: "scan_inv ops g g'" using a b scan_inv_trans by blast
  have len: "length (Nodes g) \<le> length (Nodes g1)" "length (Nodes g1) \<le> length (Nodes g')"
    using a b scan_invD(1) by blast+
  have cnt: "length r' + 2 * length (Nodes g) = length r + 2 * length (Nodes g')"
    using a b by linarith
  have reasons: "\<forall>x\<in>set r'. x \<in> set r \<or> removal_reason ops g x"
  proof
    fix x assume "x \<in> set r'"
    then have "x \<in> set r1 \<or> removal_reason ops g1 x" using b by blast
    then show "x \<in> set r \<or> removal_reason ops g x"
      using a scan_inv_reason [of ops g g1 x] by blast
  qed
  have same: "length (Nodes g') = length (Nodes g) \<longrightarrow> g' = g"
  proof
    assume "length (Nodes g') = length (Nodes g)"
    then have "length (Nodes g1) = length (Nodes g)" "length (Nodes g') = length (Nodes g1)"
      using len by simp_all
    then show "g' = g" using a b by simp
  qed
  show ?case using inv cnt reasons same by blast
qed

section \<open>The fusion pass: the guards and the rewrite\<close>

lemma fuse_scan_skip:
  assumes "order_live g order" "edges_live g" "\<forall>i\<in>set order. \<not> fusion_candidate ops g i"
  shows "fuse_scan ops order (g, r) = Inr (g, r)"
  using assms
proof (induction order)
  case Nil
  then show ?case by simp
next
  case (Cons i order)
  have "fuse_at ops i (g, r) = Inr (g, r)"
    using Cons.prems by (intro fuse_at_skip) (simp_all add: order_live_def)
  moreover have "fuse_scan ops order (g, r) = Inr (g, r)"
    using Cons by (simp add: order_live_def)
  ultimately show ?case by simp
qed

lemma Apply_no_candidate:
  assumes "order_live g (GetNodesInTopologicalOrder ops g)" "edges_live g"
    and "\<forall>i\<in>set (GetNodesInTopologicalOrder ops g). \<not> fusion_candidate ops g i"
  shows "Apply ops g modified = Inr (g, modified)"
  using fuse_scan_skip [OF assms, of "[]"] by (simp add: Apply_def)

text \<open>
  Claim C2, amended. A \<open>Conv\<close> node whose number of output edges is not 1 is never queued for
  removal by the scan of \<open>Apply\<close>: after the scan it is still in the graph, the same
  node but for the input descriptors that a fusion before it rebound, with the same output
  edges. On a graph in which every \<open>Conv\<close> node has a number of output edges other than
  1, \<open>Apply\<close> returns the graph as it was, so with the same number of nodes, and leaves
  \<open>modified\<close> as it was.
\<close>

theorem fan_out_guard:
  assumes "order_live g (GetNodesInTopologicalOrder ops g)" and "edges_live g"
  shows "(\<forall>g1 removed i n.
            fuse_scan ops (GetNodesInTopologicalOrder ops g) (g, []) = Inr (g1, removed) \<and>
            GetNode g i = Some n \<and> IsSupportedOptypeVersionAndDomain ops n ''Conv'' 1 \<and>
            GetOutputEdgesCount g i \<noteq> 1 \<longrightarrow>
              i \<notin> set removed \<and> (\<exists>n'. GetNode g1 i = Some n' \<and> same_node n n') \<and>
              OutputEdges g1 i = OutputEdges g i) \<and>
         ((\<forall>i n. GetNode g i = Some n \<and> IsSupportedOptypeVersionAndDomain ops n ''Conv'' 1 \<longrightarrow>
                  GetOutputEdgesCount g i \<noteq> 1) \<longrightarrow>
            Apply ops g modified = Inr (g, modified))"
proof (intro conjI allI impI)
  fix g1 removed i n
  assume h: "fuse_scan ops (GetNodesInTopologicalOrder ops g) (g, []) = Inr (g1, removed) \<and>
            GetNode g i = Some n \<and> IsSupportedOptypeVersionAndDomain ops n ''Conv'' 1 \<and>
            GetOutputEdgesCount g i \<noteq> 1"
  then have scan: "fuse_scan ops (GetNodesInTopologicalOrder ops g) (g, []) = Inr (g1, removed)"
    and n: "GetNode g i = Some n" and conv: "IsSupportedOptypeVersionAndDomain ops n ''Conv'' 1"
    and count: "GetOutputEdgesCount g i \<noteq> 1" by simp_all
  note inv = fuse_scan_inv [OF scan]
  have noact: "\<not> IsFusableActivation ops n" using conv by (rule Conv_not_activation)
  have "\<not> removal_reason ops g i"
    using n conv count noact by (simp add: removal_reason_def fusion_candidate_def)
  then show "i \<notin> set removed" using inv by auto
  show "\<exists>n'. GetNode g1 i = Some n' \<and> same_node n n'"
    using scan_inv_GetNode_forth [OF _ n] inv by blast
  show "OutputEdges g1 i = OutputEdges g i"
    using scan_invD(5) [OF _ n noact] inv by blast
next
  assume h: "\<forall>i n. GetNode g i = Some n \<and> IsSupportedOptypeVersionAndDomain ops n ''Conv'' 1 \<longrightarrow>
                  GetOutputEdgesCount g i \<noteq> 1"
  have "\<forall>i\<in>set (GetNodesInTopologicalOrder ops g). \<not> fusion_candidate ops g i"
    using h by (auto simp: fusion_candidate_def split: option.splits)
  then show "Apply ops g modified = Inr (g, modified)"
    by (rule Apply_no_candidate [OF assms])
qed

text \<open>
  Claim C3. Where the one output edge of a \<open>Conv\<close> node leads to a fusable activation
  with an output among the graph outputs, the scan of \<open>Apply\<close> queues neither node
  for removal, both are in the graph after the scan, and the graph outputs are the same.
  If the graph has no candidate, \<open>Apply\<close> returns the graph as it was and leaves
  \<open>modified\<close> as it was.
\<close>

theorem observable_output_guard:
  assumes "order_live g (GetNodesInTopologicalOrder ops g)" and "edges_live g"
  shows "(\<forall>g1 removed i n a an.
            fuse_scan ops (GetNodesInTopologicalOrder ops g) (g, []) = Inr (g1, removed) \<and>
            GetNode g i = Some n \<and> IsSupportedOptypeVersionAndDomain ops n ''Conv'' 1 \<and>
            GetOutputEdgesCount g i = 1 \<and> a = hd (OutputNodes g i) \<and>
            GetNode g a = Some an \<and> IsFusableActivation ops an \<and>
            IsNodeOutputsInGraphOutputs g an \<longrightarrow>
              i \<notin> set removed \<and> a \<notin> set removed \<and>
              (\<exists>n'. GetNode g1 i = Some n' \<and> same_node n n') \<and>
              (\<exists>an'. GetNode g1 a = Some an' \<and> same_node an an') \<and>
              GraphOutputs g1 = GraphOutputs g) \<and>
         ((\<forall>i\<in>set (GetNodesInTopologicalOrder ops g). \<not> fusion_candidate ops g i) \<longrightarrow>
            Apply ops g modified = Inr (g, modified))"
proof (intro conjI allI impI)
  fix g1 removed i n a an
  assume h: "fuse_scan ops (GetNodesInTopologicalOrder ops g) (g, []) = Inr (g1, removed) \<and>
            GetNode g i = Some n \<and> IsSupportedOptypeVersionAndDomain ops n ''Conv'' 1 \<and>
            GetOutputEdgesCount g i = 1 \<and> a = hd (OutputNodes g i) \<and>
            GetNode g a = Some an \<and> IsFusableActivation ops an \<and>
            IsNodeOutputsInGraphOutputs g an"
  then have scan: "fuse_scan ops (GetNodesInTopologicalOrder ops g) (g, []) = Inr (g1, removed)"
    and n: "GetNode g i = Some n" and conv: "IsSupportedOptypeVersionAndDomain ops n ''Conv'' 1"
    and a: "a = hd (OutputNodes g i)" and an: "GetNode g a = Some an"
    and act: "IsFusableActivation ops an" and obs: "IsNodeOutputsInGraphOutputs g an"
    by blast+
  note inv = fuse_scan_inv [OF scan]
  have noact: "\<not> IsFusableActivation ops n" using conv by (rule Conv_not_activation)
  have noconv: "\<not> IsSupportedOptypeVersionAndDomain ops an ''Conv'' 1"
    using act Conv_not_activation by blast
  have "\<not> removal_reason ops g i"
    using n a an obs noact by (simp add: removal_reason_def fusion_candidate_def)
  then show "i \<notin> set removed" using inv by auto
  have "\<not> removal_reason ops g a"
    using an obs noconv by (simp add: removal_reason_def fusion_candidate_def)
  then show "a \<notin> set removed" using inv by auto
  show "\<exists>n'. GetNode g1 i = Some n' \<and> same_node n n'"
    using scan_inv_GetNode_forth [OF _ n] inv by blast
  show "\<exists>an'. GetNode g1 a = Some an' \<and> same_node an an'"
    using scan_inv_GetNode_forth [OF _ an] inv by blast
  show "GraphOutputs g1 = GraphOutputs g"
    using scan_invD(2) inv by blast
next
  assume "\<forall>i\<in>set (GetNodesInTopologicalOrder ops g). \<not> fusion_candidate ops g i"
  then show "Apply ops g modified = Inr (g, modified)"
    by (rule Apply_no_candidate [OF assms])
qed

text \<open>
  Claim C8. The scan removes no node: every node of the graph is still there when it
  ends. The scan queues two nodes for each fusion, so the queue is empty exactly when the
  scan added no node. With an empty queue \<open>Apply\<close> returns the graph and
  \<open>modified\<close> as they were; otherwise it removes the queued nodes, calls
  \<open>Resolve\<close> on the result and returns the failure of \<open>Resolve\<close> if there is one,
  else the resolved graph with \<open>modified\<close> set.
\<close>

theorem Apply_resolves_after_scan:
  assumes "fuse_scan ops (GetNodesInTopologicalOrder ops g) (g, []) = Inr (g1, removed)"
  shows "(\<forall>i n. GetNode g i = Some n \<longrightarrow> (\<exists>n'. GetNode g1 i = Some n' \<and> same_node n n')) \<and>
         (removed = [] \<longleftrightarrow> length (Nodes g1) = length (Nodes g)) \<and>
         length removed = 2 * (length (Nodes g1) - length (Nodes g)) \<and>
         Apply ops g modified =
           (if removed = [] then Inr (g, modified)
            else case Resolve ops (fold (\<lambda>node g. RemoveNode ops g node) removed g1) of
                   Inl e \<Rightarrow> Inl e
                 | Inr g3 \<Rightarrow> Inr (g3, True))"
proof -
  note inv = fuse_scan_inv [OF assms]
  have len: "length (Nodes g) \<le> length (Nodes g1)" using inv scan_invD(1) by blast
  have "length removed + 2 * length (Nodes g) = length ([] :: nat list) + 2 * length (Nodes g1)"
    using inv by blast
  then have cnt: "length removed = 2 * (length (Nodes g1) - length (Nodes g))"
    using len by simp
  have iff: "removed = [] \<longleftrightarrow> length (Nodes g1) = length (Nodes g)"
    using cnt len by auto
  have same: "removed = [] \<Longrightarrow> g1 = g" using iff inv by simp
  have keep: "\<forall>i n. GetNode g i = Some n \<longrightarrow> (\<exists>n'. GetNode g1 i = Some n' \<and> same_node n n')"
    using scan_inv_GetNode_forth inv by blast
  have "Apply ops g modified =
           (if removed = [] then Inr (g, modified)
            else case Resolve ops (fold (\<lambda>node g. RemoveNode ops g node) removed g1) of
                   Inl e \<Rightarrow> Inl e
                 | Inr g3 \<Rightarrow> Inr (g3, True))"
    using assms same by (auto simp: Apply_def Let_def)
  then show ?thesis using keep iff cnt by blast
qed

lemma edges_live_dst:
  assumes "edges_live g" "e \<in> set (OutputEdges g a)"
  shows "DstNode e < length (Nodes g)"
proof -
  have "e \<in> set (Edges g)" using assms(2) by (simp add: OutputEdges_def)
  then have "GetNode g (DstNode e) \<noteq> None" using assms(1) by (simp add: edges_live_def)
  then show ?thesis by (auto simp: GetNode_def split: if_splits)
qed

lemma fused_slot_not_written:
  assumes "edges_live g"
  shows "(length (Nodes g), k) \<notin> written_slots (OutputEdges g a)"
  using edges_live_dst [OF assms] by (fastforce simp: written_slots_def)

lemma GetNode_fuse_pair_new:
  assumes "fuse_pair ops g cn a an = Inr g'" "GetNode g a = Some an" "edges_live g"
  shows "GetNode g' (length (Nodes g)) = Some (fused_node ops g cn an)"
proof -
  have "rewire_inputs (OutputDefs cn ! 0) (written_slots (OutputEdges g a)) (length (Nodes g))
          (fused_node ops g cn an) = fused_node ops g cn an"
    using fused_slot_not_written [OF assms(3)] by (intro rewire_inputs_other) simp
  then show ?thesis
    unfolding fuse_pair_Inr [OF assms(1,2)] by (simp add: GetNode_rewire GetNode_append_new)
qed

lemma GetNode_fuse_pair_old:
  assumes "fuse_pair ops g cn a an = Inr g'" "GetNode g a = Some an" "GetNode g j = Some dn"
  shows "GetNode g' j =
           Some (rewire_inputs (OutputDefs cn ! 0) (written_slots (OutputEdges g a)) j dn)"
proof -
  have "j < length (Nodes g)" using assms(3) by (simp add: GetNode_Some_iff)
  then show ?thesis
    unfolding fuse_pair_Inr [OF assms(1,2)] using assms(3)
    by (simp add: GetNode_rewire GetNode_append_old)
qed

text \<open>
  Claim C4, amended. The node that the pass builds for a candidate is a \<open>FusedConv\<close>
  of the domain \<open>com.microsoft\<close> with the input descriptors of the \<open>Conv\<close> node and
  the output descriptors of the \<open>Conv\<close> node, not those of the activation. Its
  attributes are those of the \<open>Conv\<close> node with \<open>activation\<close> bound to the
  operator type of the activation and, for a \<open>LeakyRelu\<close>, overridden by every
  attribute of the activation.
\<close>

theorem fused_node_contents:
  assumes "fuse_at ops i (g, r) = Inr (g', r')" and "fusion_candidate ops g i" and "edges_live g"
  shows "\<exists>cn an n.
           GetNode g i = Some cn \<and> GetNode g (hd (OutputNodes g i)) = Some an \<and>
           GetNode g' (length (Nodes g)) = Some n \<and>
           OpType n = ''FusedConv'' \<and> Domain n = ''com.microsoft'' \<and>
           InputDefs n = InputDefs cn \<and> OutputDefs n = OutputDefs cn \<and>
           Attributes n =
             (if OpType an = ''LeakyRelu''
              then (Attributes cn)(''activation'' \<mapsto> AttrString (OpType an)) ++ Attributes an
              else (Attributes cn)(''activation'' \<mapsto> AttrString (OpType an))) \<and>
           (OpType an = ''LeakyRelu'' \<longrightarrow>
              (\<forall>k v. Attributes an k = Some v \<longrightarrow> Attributes n k = Some v))"
proof -
  from fuse_at_cases [OF assms(1)] assms(2) obtain cn an where
    cn: "GetNode g i = Some cn" and an: "GetNode g (hd (OutputNodes g i)) = Some an"
    and fp: "fuse_pair ops g cn (hd (OutputNodes g i)) an = Inr g'" by blast
  note n = GetNode_fuse_pair_new [OF fp an assms(3)]
  show ?thesis
    using cn an n by (auto simp: fused_node_def map_add_def)
qed

text \<open>
  Claim C5. On a graph whose edges have valid ends and slots, with a name generator that
  gives a new name, the step of the pass at a candidate succeeds and queues the
  activation and the \<open>Conv\<close> node. After it every output edge of the activation is
  replaced by the edge from slot 0 of the fused node to the same destination slot, and the
  other edges are the same; the input slot at which such an edge ends holds the output
  descriptor of the fused node, and the other input slots hold what they held. If every
  input slot that held an output descriptor of the activation is the end of one of its
  output edges, every such slot now holds the output descriptor of the fused node.
\<close>

theorem activation_edges_rewired:
  assumes cand: "fusion_candidate ops g i"
    and live: "edges_live g" and slots: "edge_slots_valid g"
    and fresh: "\<forall>base. GenerateNodeName ops g base \<notin> set (live_names g)"
    and a: "a = hd (OutputNodes g i)" and an: "GetNode g a = Some an"
    and out: "OutputDefs an \<noteq> []"
  shows "\<exists>g' n.
           fuse_at ops i (g, r) = Inr (g', a # i # r) \<and>
           GetNode g' (length (Nodes g)) = Some n \<and>
           set (Edges g') =
             (set (Edges g) - set (OutputEdges g a)) \<union>
             moved_edge (length (Nodes g)) ` set (OutputEdges g a) \<and>
           (\<forall>e\<in>set (OutputEdges g a).
              \<exists>dn. GetNode g' (DstNode e) = Some dn \<and> DstArgIndex e < length (InputDefs dn) \<and>
                   InputDefs dn ! DstArgIndex e = OutputDefs n ! 0) \<and>
           (\<forall>j dn k. GetNode g j = Some dn \<and> k < length (InputDefs dn) \<and>
                     (j, k) \<notin> written_slots (OutputEdges g a) \<longrightarrow>
              (\<exists>dn'. GetNode g' j = Some dn' \<and> InputDefs dn' ! k = InputDefs dn ! k)) \<and>
           ((\<forall>j dn k. GetNode g j = Some dn \<and> k < length (InputDefs dn) \<and>
                      InputDefs dn ! k \<in> set (OutputDefs an) \<longrightarrow>
               (\<exists>e\<in>set (OutputEdges g a). DstNode e = j \<and> DstArgIndex e = k)) \<longrightarrow>
            (\<forall>j dn k. GetNode g j = Some dn \<and> k < length (InputDefs dn) \<and>
                      InputDefs dn ! k \<in> set (OutputDefs an) \<longrightarrow>
               (\<exists>dn'. GetNode g' j = Some dn' \<and> InputDefs dn' ! k = OutputDefs n ! 0)))"
proof -
  let ?f = "length (Nodes g)"
  let ?W = "written_slots (OutputEdges g a)"
  from cand obtain cn where cn: "GetNode g i = Some cn"
    and conv: "IsSupportedOptypeVersionAndDomain ops cn ''Conv'' 1"
    and count: "GetOutputEdgesCount g i = 1"
    by (auto simp: fusion_candidate_def split: option.splits)
  have act: "IsFusableActivation ops an" "\<not> IsNodeOutputsInGraphOutputs g an"
    using cand cn a an by (simp_all add: fusion_candidate_def)
  let ?out = "OutputDefs cn ! 0"
  from count obtain e0 where e0: "OutputEdges g i = [e0]"
    by (auto simp: GetOutputEdgesCount_def length_Suc_conv)
  then have "e0 \<in> set (filter (\<lambda>e. SrcNode e = i) (Edges g))" by (simp add: OutputEdges_def)
  then have "e0 \<in> set (Edges g)" "SrcNode e0 = i" by simp_all
  then have cout: "OutputDefs cn \<noteq> []"
    using slots cn by (fastforce simp: edge_slots_valid_def)
  have valid: "\<forall>e\<in>set (OutputEdges g a). SrcArgIndex e < length (OutputDefs an) \<and>
           (\<exists>dn. GetNode g (DstNode e) = Some dn \<and> DstArgIndex e < length (InputDefs dn))"
  proof
    fix e assume "e \<in> set (OutputEdges g a)"
    then have e: "e \<in> set (Edges g)" "SrcNode e = a" by (simp_all add: OutputEdges_def)
    then show "SrcArgIndex e < length (OutputDefs an) \<and>
           (\<exists>dn. GetNode g (DstNode e) = Some dn \<and> DstArgIndex e < length (InputDefs dn))"
      using slots an by (fastforce simp: edge_slots_valid_def split: option.splits)
  qed
  from fuse_pair_succeeds [OF _ an cout out valid] fresh
  obtain g' where fp: "fuse_pair ops g cn a an = Inr g'" by blast
  have step: "fuse_at ops i (g, r) = Inr (g', a # i # r)"
    using cn conv count a an act fp by (simp add: fuse_at_def Let_def)
  note g' = fuse_pair_Inr [OF fp an]
  note new = GetNode_fuse_pair_new [OF fp an live]
  have fa: "?f \<noteq> a" using an by (auto simp: GetNode_Some_iff)
  have edges: "set (Edges g') =
             (set (Edges g) - set (OutputEdges g a)) \<union> moved_edge ?f ` set (OutputEdges g a)"
    unfolding g' using fa by (simp add: set_move_edges OutputEdges_def)
  have out0: "OutputDefs (fused_node ops g cn an) ! 0 = ?out" by (simp add: fused_node_def)
  have written: "\<exists>dn'. GetNode g' j = Some dn' \<and> k < length (InputDefs dn') \<and>
                   InputDefs dn' ! k = (if (j, k) \<in> ?W then ?out else InputDefs dn ! k)"
    if h: "GetNode g j = Some dn" "k < length (InputDefs dn)" for j dn k
    using GetNode_fuse_pair_old [OF fp an h(1)] h(2)
    by (simp add: nth_InputDefs_rewire_inputs)
  have moved: "\<forall>e\<in>set (OutputEdges g a).
              \<exists>dn. GetNode g' (DstNode e) = Some dn \<and> DstArgIndex e < length (InputDefs dn) \<and>
                   InputDefs dn ! DstArgIndex e = OutputDefs (fused_node ops g cn an) ! 0"
  proof
    fix e assume e: "e \<in> set (OutputEdges g a)"
    with valid obtain dn where dn: "GetNode g (DstNode e) = Some dn"
      "DstArgIndex e < length (InputDefs dn)" by blast
    have "(DstNode e, DstArgIndex e) \<in> ?W" using e by (auto simp: written_slots_def)
    then show "\<exists>dn. GetNode g' (DstNode e) = Some dn \<and> DstArgIndex e < length (InputDefs dn) \<and>
                   InputDefs dn ! DstArgIndex e = OutputDefs (fused_node ops g cn an) ! 0"
      using written [OF dn] out0 by auto
  qed
  have kept: "\<forall>j dn k. GetNode g j = Some dn \<and> k < length (InputDefs dn) \<and> (j, k) \<notin> ?W \<longrightarrow>
              (\<exists>dn'. GetNode g' j = Some dn' \<and> InputDefs dn' ! k = InputDefs dn ! k)"
    using written by fastforce
  have swapped: "(\<forall>j dn k. GetNode g j = Some dn \<and> k < length (InputDefs dn) \<and>
                      InputDefs dn ! k \<in> set (OutputDefs an) \<longrightarrow>
               (\<exists>e\<in>set (OutputEdges g a). DstNode e = j \<and> DstArgIndex e = k)) \<longrightarrow>
            (\<forall>j dn k. GetNode g j = Some dn \<and> k < length (InputDefs dn) \<and>
                      InputDefs dn ! k \<in> set (OutputDefs an) \<longrightarrow>
               (\<exists>dn'. GetNode g' j = Some dn' \<and>
                  InputDefs dn' ! k = OutputDefs (fused_node ops g cn an) ! 0))"
  proof (intro impI allI)
    fix j dn k
    assume agree: "\<forall>j dn k. GetNode g j = Some dn \<and> k < length (InputDefs dn) \<and>
                      InputDefs dn ! k \<in> set (OutputDefs an) \<longrightarrow>
               (\<exists>e\<in>set (OutputEdges g a). DstNode e = j \<and> DstArgIndex e = k)"
      and h: "GetNode g j = Some dn \<and> k < length (InputDefs dn) \<and>
                      InputDefs dn ! k \<in> set (OutputDefs an)"
    then have "(j, k) \<in> ?W" by (fastforce simp: written_slots_def)
    then show "\<exists>dn'. GetNode g' j = Some dn' \<and>
                  InputDefs dn' ! k = OutputDefs (fused_node ops g cn an) ! 0"
      using written [of j dn k] h out0 by auto
  qed
  show ?thesis
    using step new edges moved kept swapped by blast
qed

section \<open>The fusion pass on the concrete graphs\<close>

lemmas graph_eval =
  fuse_scan.simps fuse_at_def fuse_pair_def AddNode_def AddAttribute_def AddAttributes_def
  HandleActivationNodeEdges_def redirect_edges.simps replace_inputs.simps RemoveEdge_def AddEdge_def
  GetNode_def OutputEdges_def OutputNodes_def GetOutputEdgesCount_def NodeOutputDefs_def
  live_names_def IsNodeOutputsInGraphOutputs_def IsSupportedOptypeVersionAndDomain_def
  IsFusableActivation_def kOnnxDomain_def Let_def
  example_ops_def example_versions_def live_indices_def example_name_def release_node_def

lemmas example_nodes =
  conv_node0_def act_node1_def pool_node2_def conv_node1_def relu_node2_def add_node3_def
  sum_node2_def

lemma chain_live: "live_indices chain_graph = [0, 1, 2]"
  by (simp add: live_indices_def chain_graph_def upt_rec)

lemma chain_step:
  "fuse_at example_ops 0 (chain_graph, []) = Inr (chain_scanned, [1, 0])"
  by (simp add: graph_eval chain_graph_def chain_scanned_def example_nodes fused_node_def)

lemma chain_scan:
  "fuse_scan example_ops [0, 1, 2] (chain_graph, []) = Inr (chain_scanned, [1, 0])"
  by (simp add: chain_step) (simp add: graph_eval chain_scanned_def example_nodes fused_node_def)

lemma mixed_live: "live_indices mixed_graph = [0, 1, 2, 3]"
  by (simp add: live_indices_def mixed_graph_def upt_rec)

lemma mixed_scan:
  "fuse_scan example_ops [0, 1, 2, 3] (mixed_graph, []) = Inr (mixed_scanned, [2, 1])"
  by (simp add: graph_eval mixed_graph_def mixed_scanned_def example_nodes fused_node_def)


lemma example_order [simp]: "GetNodesInTopologicalOrder example_ops g = live_indices g"
  by (simp add: example_ops_def)

lemma example_name_fresh: "example_name g base \<notin> set (live_names g)"
proof
  assume "example_name g base \<in> set (live_names g)"
  then have "length (example_name g base) \<le> length (concat (live_names g))"
    by (induction "live_names g" arbitrary: g) (auto simp: length_concat sum_list_map_remove1 member_le_sum_list)
  then show False by (simp add: example_name_def)
qed

lemma example_graphs_live:
  "edges_live chain_graph" "edges_live mixed_graph" "edges_live residual_graph"
  "edges_live observed_graph"
  "order_live chain_graph (live_indices chain_graph)"
  "order_live mixed_graph (live_indices mixed_graph)"
  "order_live residual_graph (live_indices residual_graph)"
  "order_live observed_graph (live_indices observed_graph)"
  by (simp_all add: edges_live_def order_live_def live_indices_def GetNode_def chain_graph_def
      mixed_graph_def residual_graph_def observed_graph_def)

lemma GetNode_three:
  assumes "length (Nodes g) = 3" "GetNode g i = Some n"
  shows "i = 0 \<or> i = 1 \<or> i = 2"
  using assms by (auto simp: GetNode_def split: if_splits)

theorem fan_out_guard_witness:
  "GetOutputEdgesCount mixed_graph 0 = 2 \<and>
   fuse_scan example_ops (GetNodesInTopologicalOrder example_ops mixed_graph) (mixed_graph, []) =
     Inr (mixed_scanned, [2, 1]) \<and>
   0 \<notin> set [2, 1 :: nat] \<and>
   OutputEdges mixed_scanned 0 = OutputEdges mixed_graph 0 \<and>
   GetOutputEdgesCount residual_graph 0 = 2 \<and>
   hd (OutputNodes residual_graph 0) = 1 \<and>
   IsFusableActivation example_ops act_node1 \<and>
   \<not> IsNodeOutputsInGraphOutputs residual_graph act_node1 \<and>
   Apply example_ops residual_graph False = Inr (residual_graph, False)"
proof -
  have scan: "fuse_scan example_ops (GetNodesInTopologicalOrder example_ops mixed_graph)
                (mixed_graph, []) = Inr (mixed_scanned, [2, 1])"
    by (simp only: example_order mixed_live mixed_scan)
  have n: "GetNode mixed_graph 0 = Some conv_node0"
    by (simp add: GetNode_def mixed_graph_def)
  have conv: "IsSupportedOptypeVersionAndDomain example_ops conv_node0 ''Conv'' 1"
    by (simp add: IsSupportedOptypeVersionAndDomain_def example_ops_def example_versions_def
        conv_node0_def kOnnxDomain_def)
  have count: "GetOutputEdgesCount mixed_graph 0 = 2"
    by (simp add: GetOutputEdgesCount_def OutputEdges_def mixed_graph_def)
  have "0 \<notin> set [2, 1 :: nat] \<and> (\<exists>n'. GetNode mixed_scanned 0 = Some n' \<and> same_node conv_node0 n') \<and>
        OutputEdges mixed_scanned 0 = OutputEdges mixed_graph 0"
    using fan_out_guard [of mixed_graph example_ops False, THEN conjunct1, rule_format,
        of mixed_scanned "[2, 1]" 0 conv_node0] scan n conv count example_graphs_live
    by simp
  moreover have rcount: "GetOutputEdgesCount residual_graph 0 = 2"
    by (simp add: GetOutputEdgesCount_def OutputEdges_def residual_graph_def)
  moreover have "hd (OutputNodes residual_graph 0) = 1"
    by (simp add: OutputNodes_def OutputEdges_def residual_graph_def)
  moreover have "IsFusableActivation example_ops act_node1"
    by (simp add: IsFusableActivation_def IsSupportedOptypeVersionAndDomain_def example_ops_def
        example_versions_def act_node1_def kOnnxDomain_def)
  moreover have "\<not> IsNodeOutputsInGraphOutputs residual_graph act_node1"
    by (simp add: IsNodeOutputsInGraphOutputs_def residual_graph_def act_node1_def)
  moreover have "Apply example_ops residual_graph False = Inr (residual_graph, False)"
  proof (rule fan_out_guard [of residual_graph example_ops False, THEN conjunct2, rule_format])
    show "order_live residual_graph (GetNodesInTopologicalOrder example_ops residual_graph)"
      by (simp add: example_graphs_live)
    show "edges_live residual_graph" by (simp add: example_graphs_live)
    fix i n
    assume h: "GetNode residual_graph i = Some n \<and>
               IsSupportedOptypeVersionAndDomain example_ops n ''Conv'' 1"
    then have "i = 0 \<or> i = 1 \<or> i = 2"
      by (intro GetNode_three [of residual_graph i n]) (simp_all add: residual_graph_def)
    then have "i = 0"
      using h by (auto simp: GetNode_def residual_graph_def IsSupportedOptypeVersionAndDomain_def
          act_node1_def sum_node2_def)
    then show "GetOutputEdgesCount residual_graph i \<noteq> 1" using rcount by simp
  qed
  ultimately show ?thesis using scan count by simp
qed

text \<open>
  Claim C2 as the spec states it fails. The graph \<open>mixed_graph\<close> holds a convolution
  with two consumers, node 0, and \<open>Apply\<close> changes the number of its nodes all the
  same: it fuses the convolution 1, which has one consumer, with its activation 2, so
  that the nodes 1 and 2 are removed and the node 4 is added.
\<close>

theorem fan_out_node_count_counterexample:
  "GetNode mixed_graph 0 = Some conv_node0 \<and>
   IsSupportedOptypeVersionAndDomain example_ops conv_node0 ''Conv'' 1 \<and>
   GetOutputEdgesCount mixed_graph 0 = 2 \<and>
   Apply example_ops mixed_graph False = Inr (mixed_fused, True) \<and>
   live_indices mixed_graph = [0, 1, 2, 3] \<and> live_indices mixed_fused = [0, 3, 4] \<and>
   length (Nodes mixed_graph) = 4 \<and> length (Nodes mixed_fused) = 5"
proof -
  have scan: "fuse_scan example_ops (GetNodesInTopologicalOrder example_ops mixed_graph)
                (mixed_graph, []) = Inr (mixed_scanned, [2, 1])"
    by (simp only: example_order mixed_live mixed_scan)
  have removed: "fold (\<lambda>node g. RemoveNode example_ops g node) [2, 1] mixed_scanned = mixed_fused"
    by (simp add: example_ops_def release_node_def mixed_scanned_def mixed_fused_def)
  have "Resolve example_ops mixed_fused = Inr mixed_fused" by (simp add: example_ops_def)
  then have "Apply example_ops mixed_graph False = Inr (mixed_fused, True)"
    using scan removed by (simp add: Apply_def)
  moreover have "GetNode mixed_graph 0 = Some conv_node0"
    by (simp add: GetNode_def mixed_graph_def)
  moreover have "IsSupportedOptypeVersionAndDomain example_ops conv_node0 ''Conv'' 1"
    by (simp add: IsSupportedOptypeVersionAndDomain_def example_ops_def example_versions_def
        conv_node0_def kOnnxDomain_def)
  moreover have "GetOutputEdgesCount mixed_graph 0 = 2"
    by (simp add: GetOutputEdgesCount_def OutputEdges_def mixed_graph_def)
  moreover have "live_indices mixed_fused = [0, 3, 4]"
    by (simp add: live_indices_def mixed_fused_def mixed_scanned_def upt_rec)
  moreover have "length (Nodes mixed_graph) = 4" "length (Nodes mixed_fused) = 5"
    by (simp_all add: mixed_graph_def mixed_fused_def mixed_scanned_def)
  ultimately show ?thesis using mixed_live by simp
qed


lemma chain_candidate: "fusion_candidate example_ops chain_graph 0"
  by (simp add: fusion_candidate_def graph_eval chain_graph_def example_nodes)

lemma chain_nodes:
  "GetNode chain_graph 0 = Some conv_node0" "GetNode chain_graph 1 = Some act_node1"
  "hd (OutputNodes chain_graph 0) = 1" "length (Nodes chain_graph) = 3"
  by (simp_all add: GetNode_def OutputNodes_def OutputEdges_def chain_graph_def)

theorem observable_output_guard_witness:
  "IsNodeOutputsInGraphOutputs observed_graph act_node1 \<and>
   fuse_scan example_ops (GetNodesInTopologicalOrder example_ops observed_graph)
     (observed_graph, []) = Inr (observed_graph, []) \<and>
   GraphOutputs observed_graph = [''Z'', ''O''] \<and>
   Apply example_ops observed_graph False = Inr (observed_graph, False)"
proof -
  have obs: "IsNodeOutputsInGraphOutputs observed_graph act_node1"
    by (simp add: IsNodeOutputsInGraphOutputs_def observed_graph_def act_node1_def)
  have none: "\<forall>i\<in>set (GetNodesInTopologicalOrder example_ops observed_graph).
                \<not> fusion_candidate example_ops observed_graph i"
    by (simp add: live_indices_def fusion_candidate_def graph_eval observed_graph_def
        chain_graph_def example_nodes)
  have live: "order_live observed_graph (GetNodesInTopologicalOrder example_ops observed_graph)"
    "edges_live observed_graph"
    by (simp_all add: example_graphs_live)
  have unchanged: "Apply example_ops observed_graph False = Inr (observed_graph, False)"
    using observable_output_guard [OF live, of False, THEN conjunct2] none by blast
  have scan: "fuse_scan example_ops (GetNodesInTopologicalOrder example_ops observed_graph)
     (observed_graph, []) = Inr (observed_graph, [])"
    using fuse_scan_skip [OF live none] .
  have n: "GetNode observed_graph 0 = Some conv_node0" "GetNode observed_graph 1 = Some act_node1"
    "1 = hd (OutputNodes observed_graph 0)" "GetOutputEdgesCount observed_graph 0 = 1"
    by (simp_all add: GetNode_def OutputNodes_def OutputEdges_def GetOutputEdgesCount_def
        observed_graph_def chain_graph_def)
  have conv: "IsSupportedOptypeVersionAndDomain example_ops conv_node0 ''Conv'' 1"
    "IsFusableActivation example_ops act_node1"
    by (simp_all add: IsFusableActivation_def IsSupportedOptypeVersionAndDomain_def example_ops_def
        example_versions_def conv_node0_def act_node1_def kOnnxDomain_def)
  have "0 \<notin> set ([] :: nat list) \<and> 1 \<notin> set ([] :: nat list) \<and>
        (\<exists>n'. GetNode observed_graph 0 = Some n' \<and> same_node conv_node0 n') \<and>
        (\<exists>an'. GetNode observed_graph 1 = Some an' \<and> same_node act_node1 an') \<and>
        GraphOutputs observed_graph = GraphOutputs observed_graph"
    using observable_output_guard [OF live, of False, THEN conjunct1, rule_format,
        of observed_graph "[]" 0 conv_node0 1 act_node1] scan n conv obs
    by blast
  then show ?thesis using obs scan unchanged by (simp add: observed_graph_def)
qed

theorem fused_node_contents_witness:
  "fuse_at example_ops 0 (chain_graph, []) = Inr (chain_scanned, [1, 0]) \<and>
   (\<exists>n. GetNode chain_scanned 3 = Some n \<and> OpType n = ''FusedConv'' \<and>
        InputDefs n = [''X'', ''W''] \<and> OutputDefs n = [''Y''] \<and>
        Attributes n ''kernel_shape'' = Some (AttrInts [3, 3]) \<and>
        Attributes n ''activation'' = Some (AttrString ''LeakyRelu'') \<and>
        Attributes n ''alpha'' = Some (AttrFloat 0x3DCCCCCD))"
proof -
  from fused_node_contents [OF chain_step chain_candidate example_graphs_live(1)]
  obtain cn an n where cn: "GetNode chain_graph 0 = Some cn"
    and an: "GetNode chain_graph (hd (OutputNodes chain_graph 0)) = Some an"
    and n: "GetNode chain_scanned (length (Nodes chain_graph)) = Some n"
    "OpType n = ''FusedConv''" "InputDefs n = InputDefs cn" "OutputDefs n = OutputDefs cn"
    "Attributes n =
       (if OpType an = ''LeakyRelu''
        then (Attributes cn)(''activation'' \<mapsto> AttrString (OpType an)) ++ Attributes an
        else (Attributes cn)(''activation'' \<mapsto> AttrString (OpType an)))"
    by blast
  have "cn = conv_node0" using cn unfolding chain_nodes by simp
  moreover have "an = act_node1" using an unfolding chain_nodes by simp
  ultimately have "cn = conv_node0" "an = act_node1" .
  with n have "GetNode chain_scanned 3 = Some n \<and> OpType n = ''FusedConv'' \<and>
        InputDefs n = [''X'', ''W''] \<and> OutputDefs n = [''Y''] \<and>
        Attributes n ''kernel_shape'' = Some (AttrInts [3, 3]) \<and>
        Attributes n ''activation'' = Some (AttrString ''LeakyRelu'') \<and>
        Attributes n ''alpha'' = Some (AttrFloat 0x3DCCCCCD)"
    by (simp add: chain_nodes conv_node0_def act_node1_def map_add_def)
  then show ?thesis using chain_step by blast
qed

text \<open>
  Claim C4 as the spec states it fails: on the chain, the fused node has the output
  descriptor \<open>Y\<close> of the convolution, where the activation has \<open>Z\<close>.
\<close>

theorem fused_node_outputs_counterexample:
  "fuse_scan example_ops [0, 1, 2] (chain_graph, []) = Inr (chain_scanned, [1, 0]) \<and>
   GetNode chain_graph 0 = Some conv_node0 \<and> GetNode chain_graph 1 = Some act_node1 \<and>
   OutputDefs act_node1 = [''Z''] \<and>
   map_option OutputDefs (GetNode chain_scanned 3) = Some [''Y''] \<and>
   map_option OutputDefs (GetNode chain_fused 3) = Some [''Y''] \<and>
   Apply example_ops chain_graph False = Inr (chain_fused, True)"
proof -
  have "fold (\<lambda>node g. RemoveNode example_ops g node) [1, 0] chain_scanned = chain_fused"
    by (simp add: example_ops_def release_node_def chain_scanned_def chain_fused_def)
  moreover have "Resolve example_ops chain_fused = Inr chain_fused"
    by (simp add: example_ops_def)
  ultimately have "Apply example_ops chain_graph False = Inr (chain_fused, True)"
    unfolding Apply_def by (simp only: example_order chain_live chain_scan) simp
  then show ?thesis
    using chain_scan chain_nodes
    by (simp add: GetNode_def chain_scanned_def chain_fused_def fused_node_def conv_node0_def
        act_node1_def)
qed

lemma chain_slots: "edge_slots_valid chain_graph"
  by (simp add: edge_slots_valid_def GetNode_def chain_graph_def example_nodes)

theorem activation_edges_rewired_witness:
  "fuse_at example_ops 0 (chain_graph, []) = Inr (chain_scanned, [1, 0]) \<and>
   OutputEdges chain_graph 1 = [\<lparr>SrcNode = 1, DstNode = 2, SrcArgIndex = 0, DstArgIndex = 0\<rparr>] \<and>
   set (Edges chain_scanned) =
     {\<lparr>SrcNode = 0, DstNode = 1, SrcArgIndex = 0, DstArgIndex = 0\<rparr>,
      \<lparr>SrcNode = 3, DstNode = 2, SrcArgIndex = 0, DstArgIndex = 0\<rparr>} \<and>
   (\<exists>dn n. GetNode chain_scanned 2 = Some dn \<and> GetNode chain_scanned 3 = Some n \<and>
           InputDefs (pool_node2) = [''Z''] \<and> OutputDefs act_node1 = [''Z''] \<and>
           InputDefs dn ! 0 = OutputDefs n ! 0)"
proof -
  have fresh: "\<forall>base. GenerateNodeName example_ops chain_graph base \<notin> set (live_names chain_graph)"
    by (simp add: example_ops_def example_name_fresh)
  have out: "OutputDefs act_node1 \<noteq> []" by (simp add: act_node1_def)
  have edges1: "OutputEdges chain_graph 1 =
                  [\<lparr>SrcNode = 1, DstNode = 2, SrcArgIndex = 0, DstArgIndex = 0\<rparr>]"
    by (simp add: OutputEdges_def chain_graph_def)
  from activation_edges_rewired [OF chain_candidate example_graphs_live(1) chain_slots fresh
      chain_nodes(3) [symmetric] chain_nodes(2) out, of "[]"]
  obtain g' n where step: "fuse_at example_ops 0 (chain_graph, []) = Inr (g', [1, 0])"
    and n: "GetNode g' (length (Nodes chain_graph)) = Some n"
    and edges: "set (Edges g') =
             (set (Edges chain_graph) - set (OutputEdges chain_graph 1)) \<union>
             moved_edge (length (Nodes chain_graph)) ` set (OutputEdges chain_graph 1)"
    and moved: "\<forall>e\<in>set (OutputEdges chain_graph 1).
              \<exists>dn. GetNode g' (DstNode e) = Some dn \<and> DstArgIndex e < length (InputDefs dn) \<and>
                   InputDefs dn ! DstArgIndex e = OutputDefs n ! 0"
    by blast
  have g': "g' = chain_scanned" using step chain_step by simp
  have "set (Edges chain_scanned) =
     {\<lparr>SrcNode = 0, DstNode = 1, SrcArgIndex = 0, DstArgIndex = 0\<rparr>,
      \<lparr>SrcNode = 3, DstNode = 2, SrcArgIndex = 0, DstArgIndex = 0\<rparr>}"
    using edges unfolding g' edges1 chain_nodes(4)
    by (simp add: chain_graph_def moved_edge_def insert_Diff_if insert_commute)
  moreover have "\<exists>dn. GetNode chain_scanned 2 = Some dn \<and> InputDefs dn ! 0 = OutputDefs n ! 0"
    using moved unfolding g' edges1 by auto
  moreover have "GetNode chain_scanned 3 = Some n"
    using n unfolding g' chain_nodes by simp
  moreover have "InputDefs (pool_node2) = [''Z'']" "OutputDefs act_node1 = [''Z'']"
    by (simp_all add: pool_node2_def act_node1_def)
  ultimately show ?thesis using chain_step edges1 by blast
qed

lemma Resolve_update_predicates:
  "IsSupportedOptypeVersionAndDomain (ops\<lparr>Resolve := R\<rparr>) = IsSupportedOptypeVersionAndDomain ops"
  "IsFusableActivation (ops\<lparr>Resolve := R\<rparr>) = IsFusableActivation ops"
  "fuse_pair (ops\<lparr>Resolve := R\<rparr>) = fuse_pair ops"
  by (simp_all add: fun_eq_iff fuse_pair_def IsFusableActivation_def
      IsSupportedOptypeVersionAndDomain_def)

lemma fuse_at_Resolve_update: "fuse_at (ops\<lparr>Resolve := R\<rparr>) i st = fuse_at ops i st"
  by (simp add: fuse_at_def Resolve_update_predicates
      cong: prod.case_cong option.case_cong if_cong sum.case_cong)

lemma fuse_scan_Resolve_update: "fuse_scan (ops\<lparr>Resolve := R\<rparr>) order st = fuse_scan ops order st"
  by (induction order arbitrary: st) (auto simp: fuse_at_Resolve_update split: sum.splits)

theorem Apply_resolves_after_scan_witness:
  "length [1, 0 :: nat] = 2 * (length (Nodes chain_scanned) - length (Nodes chain_graph)) \<and>
   Apply example_ops chain_graph False = Inr (chain_fused, True) \<and>
   Apply refusing_ops chain_graph False = Inl (Status INVALID_GRAPH ''cycle'')"
proof -
  have scan: "fuse_scan example_ops (GetNodesInTopologicalOrder example_ops chain_graph)
                (chain_graph, []) = Inr (chain_scanned, [1, 0])"
    by (simp only: example_order chain_live chain_scan)
  have "GetNodesInTopologicalOrder refusing_ops chain_graph = [0, 1, 2]"
    by (simp add: refusing_ops_def chain_live)
  then have scan': "fuse_scan refusing_ops (GetNodesInTopologicalOrder refusing_ops chain_graph)
                (chain_graph, []) = Inr (chain_scanned, [1, 0])"
    by (simp only: refusing_ops_def fuse_scan_Resolve_update chain_scan)
  have removed: "fold (\<lambda>node g. RemoveNode example_ops g node) [1, 0] chain_scanned = chain_fused"
    by (simp add: example_ops_def release_node_def chain_scanned_def chain_fused_def)
  have ok: "Resolve example_ops chain_fused = Inr chain_fused"
    by (simp add: example_ops_def)
  have no: "Resolve refusing_ops g = Inl (Status INVALID_GRAPH ''cycle'')" for g
    by (simp add: refusing_ops_def)
  have "length [1, 0 :: nat] = 2 * (length (Nodes chain_scanned) - length (Nodes chain_graph)) \<and>
        Apply example_ops chain_graph False = Inr (chain_fused, True)"
    using Apply_resolves_after_scan [OF scan, of False] removed ok by simp
  moreover have "Apply refusing_ops chain_graph False = Inl (Status INVALID_GRAPH ''cycle'')"
    using Apply_resolves_after_scan [OF scan', of False] no by simp
  ultimately show ?thesis by blast
qed

section \<open>Idempotence of the fusion pass\<close>

subsection \<open>The state of the scan\<close>

lemma queued_for_back:
  assumes "scan_inv ops g g'" "queued_for ops g' x"
  shows "queued_for ops g x"
  using assms(2) scan_inv_candidate [OF assms(1)]
  unfolding queued_for_def by metis











subsection \<open>One producer for a descriptor\<close>



subsection \<open>No candidate is left\<close>

















subsection \<open>The two runs on concrete graphs\<close>

























end
